theory Spec2Isabelle
  imports Complex_Main "HOL-Library.Product_Lexorder" "HOL-Library.Multiset"
begin

section \<open>Python values used by diff2HtmlCompare\<close>

text \<open>
  Strings are character lists.  The exceptions that the modelled code can raise are
  values of \<open>error\<close>; a computation that may raise returns \<open>error + 'a\<close>
  with \<open>Inl\<close> for the raised exception.
\<close>

datatype error = TypeError | IndexError | RuntimeError | ZeroDivisionError | UnboundLocalError | SystemExit

definition tab_chr :: char where "tab_chr = CHR 0x09"
definition newline_chr :: char where "newline_chr = CHR 0x0A"
definition cr_chr :: char where "cr_chr = CHR 0x0D"
definition nul_chr :: char where "nul_chr = CHR 0x00"
definition space_chr :: char where "space_chr = CHR 0x20"

text \<open>\<open>s.replace(old, new)\<close> for one-character \<open>old\<close> and \<open>new\<close>.\<close>

definition str_replace :: "char \<Rightarrow> char \<Rightarrow> string \<Rightarrow> string" where
  "str_replace old new s = map (\<lambda>c. if c = old then new else c) s"

text \<open>
  \<open>s.expandtabs(tabsize)\<close>: the column counter restarts after a newline or a
  carriage return; a tab is replaced by the spaces up to the next tab stop, and is
  dropped when \<open>tabsize\<close> is not positive.
\<close>

fun expandtabs_col :: "int \<Rightarrow> int \<Rightarrow> string \<Rightarrow> string" where
  "expandtabs_col tabsize col [] = []"
| "expandtabs_col tabsize col (c # cs) =
     (if c = tab_chr then
        (if tabsize > 0 then
           (let incr = tabsize - (col mod tabsize)
            in replicate (nat incr) space_chr @ expandtabs_col tabsize (col + incr) cs)
         else expandtabs_col tabsize col cs)
      else c # expandtabs_col tabsize
                 (if c = newline_chr \<or> c = cr_chr then 0 else col + 1) cs)"

definition expandtabs :: "int \<Rightarrow> string \<Rightarrow> string" where
  "expandtabs tabsize s = expandtabs_col tabsize 0 s"

text \<open>\<open>s.rstrip(c)\<close> for a one-character argument.\<close>

definition rstrip :: "char \<Rightarrow> string \<Rightarrow> string" where
  "rstrip c s = rev (dropWhile (\<lambda>x. x = c) (rev s))"

text \<open>\<open>str(n)\<close> for an integer.\<close>

function str_nat :: "nat \<Rightarrow> string" where
  "str_nat n =
     (if n < 10 then [''0123456789'' ! n]
      else str_nat (n div 10) @ [''0123456789'' ! (n mod 10)])"
  by pat_completeness auto
termination
  by (relation "measure id") auto

declare str_nat.simps [simp del]

definition str_int :: "int \<Rightarrow> string" where
  "str_int i = (if i < 0 then CHR ''-'' # str_nat (nat (- i)) else str_nat (nat i))"

text \<open>\<open>xs[k]\<close> with Python's negative indices; out of range raises IndexError.\<close>

definition getitem :: "'a list \<Rightarrow> int \<Rightarrow> error + 'a" where
  "getitem xs k =
     (if 0 \<le> k \<and> k < int (length xs) then Inr (xs ! nat k)
      else if k < 0 \<and> - k \<le> int (length xs) then Inr (xs ! nat (int (length xs) + k))
      else Inl IndexError)"

section \<open>Tab expansion (\<open>expand_tabs\<close> inside \<open>CodeDiff.getDiffDetails\<close>)\<close>

definition expand_tabs :: "int \<Rightarrow> string \<Rightarrow> string" where
  "expand_tabs tabSize line =
     (let line1 = str_replace space_chr nul_chr line;
          line2 = expandtabs tabSize line1;
          line3 = str_replace space_chr tab_chr line2
      in rstrip newline_chr (str_replace nul_chr space_chr line3))"

section \<open>The aligned sequence\<close>

text \<open>
  A line reference is \<open>(line number, text)\<close>.  The line number is an \<open>int\<close> or, for
  the blank line that pads the other side of an insertion or deletion, the empty string
  \<open>''\<close> of \<open>difflib._mdiff\<close>: \<open>None\<close> here.  An element of the list returned by
  \<open>getDiffDetails\<close> is a triple \<open>(from line, to line, flag)\<close> or, in context mode,
  the separator \<open>(None, None, None)\<close>.
\<close>

type_synonym lineref = "int option \<times> string"

datatype diff_item = AlignedPair lineref lineref bool | Separator

section \<open>\<open>DiffHtmlFormatter\<close>\<close>

text \<open>\<open>isinstance(no, int)\<close>\<close>

definition isint :: "int option \<Rightarrow> bool" where
  "isint no = (case no of Some n \<Rightarrow> True | None \<Rightarrow> False)"

text \<open>\<open>no <= len(source)\<close>; comparing the string \<open>''\<close> with an int raises TypeError.\<close>

definition le_len :: "int option \<Rightarrow> 'a list \<Rightarrow> error + bool" where
  "le_len no source =
     (case no of Some n \<Rightarrow> Inr (n \<le> int (length source)) | None \<Rightarrow> Inl TypeError)"

text \<open>The same comparison behind an \<open>isinstance(no, int) and\<close> guard.\<close>

definition int_le_len :: "int option \<Rightarrow> 'a list \<Rightarrow> bool" where
  "int_le_len no source = (case no of Some n \<Rightarrow> n \<le> int (length source) | None \<Rightarrow> False)"

text \<open>\<open>i, t = source[no - 1]\<close>\<close>

definition lookup :: "(int \<times> string) list \<Rightarrow> int option \<Rightarrow> error + (int \<times> string)" where
  "lookup source no =
     (case no of Some n \<Rightarrow> getitem source (n - 1) | None \<Rightarrow> Inl TypeError)"

text \<open>\<open>t = '<span class="cls">' + t + "</span>"\<close>\<close>

definition span :: "string \<Rightarrow> string \<Rightarrow> string" where
  \<open>span cls t = ''<span class="'' @ cls @ ''">'' @ t @ ''</span>''\<close>

definition spanned :: "string \<Rightarrow> error + (int \<times> string) \<Rightarrow> error + (int \<times> string)" where
  "spanned cls r = (case r of Inl e \<Rightarrow> Inl e | Inr (i, t) \<Rightarrow> Inr (i, span cls t))"

text \<open>
  The body of the \<open>try\<close> block of \<open>_wrap_code\<close> for one pair: the value that is
  yielded, or the exception raised before the \<open>yield\<close>.  A bare \<open>raise\<close> with no
  active exception raises RuntimeError.
\<close>

definition wrap_pair ::
  "bool \<Rightarrow> (int \<times> string) list \<Rightarrow> lineref \<Rightarrow> lineref \<Rightarrow> bool \<Rightarrow> error + (int \<times> string)" where
  "wrap_pair isLeft source left right change =
     (case left of (left_no, left_line) \<Rightarrow>
      case right of (right_no, right_line) \<Rightarrow>
        if isLeft then
          (if change then
             (if isint left_no \<and> isint right_no \<and> int_le_len left_no source then
                spanned ''left_diff_change'' (lookup source left_no)
              else if isint left_no \<and> \<not> isint right_no \<and> int_le_len left_no source then
                spanned ''left_diff_del'' (lookup source left_no)
              else if \<not> isint left_no \<and> isint right_no then
                Inr (1, span ''left_diff_add'' left_line)
              else Inl RuntimeError)
           else
             (case le_len left_no source of
                Inl e \<Rightarrow> Inl e
              | Inr True \<Rightarrow> lookup source left_no
              | Inr False \<Rightarrow> Inr (1, left_line)))
        else
          (if change then
             (if isint left_no \<and> isint right_no \<and> int_le_len right_no source then
                spanned ''right_diff_change'' (lookup source right_no)
              else if isint left_no \<and> \<not> isint right_no then
                Inr (1, span ''right_diff_del'' right_line)
              else if \<not> isint left_no \<and> isint right_no \<and> int_le_len right_no source then
                spanned ''right_diff_add'' (lookup source right_no)
              else Inl RuntimeError)
           else
             (case le_len right_no source of
                Inl e \<Rightarrow> Inl e
              | Inr True \<Rightarrow> lookup source right_no
              | Inr False \<Rightarrow> Inr (1, right_line))))"

text \<open>
  The \<open>for\<close> loop of \<open>_wrap_code\<close>.  Unpacking the loop target is outside the
  \<open>try\<close>: the separator \<open>(None, None, None)\<close> raises TypeError out of the generator.
  An exception inside the \<open>try\<close> is swallowed by \<open>except: pass\<close> and nothing is
  yielded for that pair.
\<close>

fun wrap_loop :: "bool \<Rightarrow> (int \<times> string) list \<Rightarrow> diff_item list \<Rightarrow> error + (int \<times> string) list" where
  "wrap_loop isLeft source [] = Inr []"
| "wrap_loop isLeft source (Separator # ds) = Inl TypeError"
| "wrap_loop isLeft source (AlignedPair left right change # ds) =
     (case wrap_loop isLeft source ds of
        Inl e \<Rightarrow> Inl e
      | Inr rest \<Rightarrow>
          (case wrap_pair isLeft source left right change of
             Inl e \<Rightarrow> Inr rest
           | Inr y \<Rightarrow> Inr (y # rest)))"

definition wrap_code :: "bool \<Rightarrow> diff_item list \<Rightarrow> (int \<times> string) list \<Rightarrow> error + (int \<times> string) list" where
  "wrap_code isLeft ds source =
     (case wrap_loop isLeft source ds of
        Inl e \<Rightarrow> Inl e
      | Inr body \<Rightarrow> Inr ([(0, ''<pre>'')] @ body @ [(0, newline_chr # ''</pre>'')]))"

text \<open>The content lines of a rendered pane: what stands between the two pre-markup items.\<close>

definition content_lines :: "(int \<times> string) list \<Rightarrow> (int \<times> string) list" where
  "content_lines out = butlast (tl out)"

text \<open>\<open>str(no)\<close> of a line number; \<open>str('')\<close> is the empty string.\<close>

definition str_no :: "int option \<Rightarrow> string" where
  "str_no no = (case no of Some n \<Rightarrow> str_int n | None \<Rightarrow> [])"

text \<open>
  One iteration of \<open>getDiffLineNos\<close>: the marker appended for a pair.  \<open>no\<close> stays
  \<open>None\<close> when the pair is changed and neither line number is an int.
\<close>

definition lineno_marker :: "bool \<Rightarrow> lineref \<Rightarrow> lineref \<Rightarrow> bool \<Rightarrow> string option" where
  "lineno_marker isLeft left right change =
     (case left of (left_no, left_line) \<Rightarrow>
      case right of (right_no, right_line) \<Rightarrow>
        if isLeft then
          (if change then
             (if isint left_no \<and> isint right_no then
                Some (span ''lineno_q lineno_leftchange'' (str_no left_no))
              else if isint left_no \<and> \<not> isint right_no then
                Some (span ''lineno_q lineno_leftdel'' (str_no left_no))
              else if \<not> isint left_no \<and> isint right_no then
                Some (span ''lineno_q lineno_leftadd'' ''  '')
              else None)
           else Some (span ''lineno_q'' (str_no left_no)))
        else
          (if change then
             (if isint left_no \<and> isint right_no then
                Some (span ''lineno_q lineno_rightchange'' (str_no right_no))
              else if isint left_no \<and> \<not> isint right_no then
                Some (span ''lineno_q lineno_rightdel'' ''  '')
              else if \<not> isint left_no \<and> isint right_no then
                Some (span ''lineno_q lineno_rightadd'' (str_no right_no))
              else None)
           else Some (span ''lineno_q'' (str_no right_no))))"

fun getDiffLineNos :: "bool \<Rightarrow> diff_item list \<Rightarrow> error + string option list" where
  "getDiffLineNos isLeft [] = Inr []"
| "getDiffLineNos isLeft (Separator # ds) = Inl TypeError"
| "getDiffLineNos isLeft (AlignedPair left right change # ds) =
     (case getDiffLineNos isLeft ds of
        Inl e \<Rightarrow> Inl e
      | Inr rest \<Rightarrow> Inr (lineno_marker isLeft left right change # rest))"

section \<open>\<open>difflib.SequenceMatcher\<close>\<close>

type_synonym block = "nat \<times> nat \<times> nat"

definition indices_of :: "'a list \<Rightarrow> 'a \<Rightarrow> nat list" where
  "indices_of b x = filter (\<lambda>j. b ! j = x) [0..<length b]"

definition bjunk :: "('a \<Rightarrow> bool) option \<Rightarrow> 'a list \<Rightarrow> 'a \<Rightarrow> bool" where
  "bjunk isjunk b x = (case isjunk of None \<Rightarrow> False | Some f \<Rightarrow> x \<in> set b \<and> f x)"

definition bpopular :: "('a \<Rightarrow> bool) option \<Rightarrow> 'a list \<Rightarrow> 'a \<Rightarrow> bool" where
  "bpopular isjunk b x =
     (200 \<le> length b \<and> x \<in> set b \<and> \<not> bjunk isjunk b x \<and>
      length b div 100 + 1 < length (indices_of b x))"

definition b2j_get :: "('a \<Rightarrow> bool) option \<Rightarrow> 'a list \<Rightarrow> 'a \<Rightarrow> nat list" where
  "b2j_get isjunk b x =
     (if bjunk isjunk b x \<or> bpopular isjunk b x then [] else indices_of b x)"

definition j2len_get :: "(nat \<times> nat) list \<Rightarrow> nat \<Rightarrow> nat" where
  "j2len_get j2len j =
     (if j = 0 then 0 else case map_of j2len (j - 1) of None \<Rightarrow> 0 | Some v \<Rightarrow> v)"

fun flm_row :: "nat \<Rightarrow> nat \<Rightarrow> nat \<Rightarrow> (nat \<times> nat) list \<Rightarrow> nat list \<Rightarrow>
    (nat \<times> nat) list \<Rightarrow> block \<Rightarrow> (nat \<times> nat) list \<times> block" where
  "flm_row i blo bhi j2len [] newj2len best = (newj2len, best)"
| "flm_row i blo bhi j2len (j # js) newj2len best =
     (if j < blo then flm_row i blo bhi j2len js newj2len best
      else if bhi \<le> j then (newj2len, best)
      else
        (let k = j2len_get j2len j + 1
         in flm_row i blo bhi j2len js ((j, k) # newj2len)
              (case best of (besti, bestj, bestsize) \<Rightarrow>
                 if bestsize < k then (i + 1 - k, j + 1 - k, k) else best)))"

fun flm_rows :: "('a \<Rightarrow> nat list) \<Rightarrow> 'a list \<Rightarrow> nat \<Rightarrow> nat \<Rightarrow> nat list \<Rightarrow>
    (nat \<times> nat) list \<Rightarrow> block \<Rightarrow> block" where
  "flm_rows b2j a blo bhi [] j2len best = best"
| "flm_rows b2j a blo bhi (i # is) j2len best =
     (case flm_row i blo bhi j2len (b2j (a ! i)) [] best of
        (newj2len, best') \<Rightarrow> flm_rows b2j a blo bhi is newj2len best')"

function extend_back :: "('a \<Rightarrow> bool) \<Rightarrow> 'a list \<Rightarrow> 'a list \<Rightarrow> nat \<Rightarrow> nat \<Rightarrow> block \<Rightarrow> block" where
  "extend_back P a b alo blo (besti, bestj, bestsize) =
     (if alo < besti \<and> blo < bestj \<and> P (b ! (bestj - 1)) \<and> a ! (besti - 1) = b ! (bestj - 1)
      then extend_back P a b alo blo (besti - 1, bestj - 1, bestsize + 1)
      else (besti, bestj, bestsize))"
  by pat_completeness auto
termination
  by (relation "measure (\<lambda>(P, a, b, alo, blo, besti, bestj, bestsize). besti)") auto

function extend_fwd :: "('a \<Rightarrow> bool) \<Rightarrow> 'a list \<Rightarrow> 'a list \<Rightarrow> nat \<Rightarrow> nat \<Rightarrow> block \<Rightarrow> block" where
  "extend_fwd P a b ahi bhi (besti, bestj, bestsize) =
     (if besti + bestsize < ahi \<and> bestj + bestsize < bhi \<and> P (b ! (bestj + bestsize)) \<and>
         a ! (besti + bestsize) = b ! (bestj + bestsize)
      then extend_fwd P a b ahi bhi (besti, bestj, bestsize + 1)
      else (besti, bestj, bestsize))"
  by pat_completeness auto
termination
  by (relation "measure (\<lambda>(P, a, b, ahi, bhi, besti, bestj, bestsize). ahi - (besti + bestsize))") auto

declare extend_back.simps [simp del] extend_fwd.simps [simp del]

definition find_longest_match ::
  "('a \<Rightarrow> bool) option \<Rightarrow> 'a list \<Rightarrow> 'a list \<Rightarrow> nat \<Rightarrow> nat \<Rightarrow> nat \<Rightarrow> nat \<Rightarrow> block" where
  "find_longest_match isjunk a b alo ahi blo bhi =
     (let isbjunk = bjunk isjunk b;
          m0 = flm_rows (b2j_get isjunk b) a blo bhi [alo..<ahi] [] (alo, blo, 0);
          m1 = extend_back (\<lambda>x. \<not> isbjunk x) a b alo blo m0;
          m2 = extend_fwd (\<lambda>x. \<not> isbjunk x) a b ahi bhi m1;
          m3 = extend_back isbjunk a b alo blo m2
      in extend_fwd isbjunk a b ahi bhi m3)"


subsection \<open>Bounds of the block found\<close>

definition in_region :: "nat \<Rightarrow> nat \<Rightarrow> nat \<Rightarrow> nat \<Rightarrow> block \<Rightarrow> bool" where
  "in_region alo ahi blo bhi m =
     (case m of (i, j, k) \<Rightarrow>
        alo \<le> i \<and> blo \<le> j \<and> (if k = 0 then i = alo \<and> j = blo else i + k \<le> ahi \<and> j + k \<le> bhi))"

definition j2len_ok :: "nat \<Rightarrow> nat \<Rightarrow> nat \<Rightarrow> (nat \<times> nat) list \<Rightarrow> bool" where
  "j2len_ok alo blo i j2len = (\<forall>(j, v) \<in> set j2len. v + alo \<le> i \<and> v + blo \<le> j + 1)"

lemma j2len_get_le:
  assumes "j2len_ok alo blo i j2len" "blo \<le> j" "alo \<le> i"
  shows "j2len_get j2len j + alo \<le> i \<and> j2len_get j2len j + blo \<le> j"
proof (cases "j = 0")
  case True
  with assms show ?thesis by (simp add: j2len_get_def)
next
  case False
  show ?thesis
  proof (cases "map_of j2len (j - 1)")
    case None
    with False assms show ?thesis by (simp add: j2len_get_def)
  next
    case (Some v)
    then have "(j - 1, v) \<in> set j2len" by (rule map_of_SomeD)
    with assms(1) have "v + alo \<le> i \<and> v + blo \<le> j - 1 + 1" by (auto simp: j2len_ok_def)
    with False Some show ?thesis by (simp add: j2len_get_def)
  qed
qed

lemma flm_row_in_region:
  assumes "j2len_ok alo blo i j2len" "alo \<le> i" "i < ahi"
    and "j2len_ok alo blo (i + 1) newj2len" "in_region alo ahi blo bhi best"
    and "flm_row i blo bhi j2len js newj2len best = (newj2len', best')"
  shows "j2len_ok alo blo (i + 1) newj2len' \<and> in_region alo ahi blo bhi best'"
  using assms(4-6)
proof (induction js arbitrary: newj2len best)
  case Nil
  then show ?case by simp
next
  case (Cons j js)
  show ?case
  proof (cases "j < blo")
    case True
    with Cons show ?thesis by simp
  next
    case lo: False
    show ?thesis
    proof (cases "bhi \<le> j")
      case True
      with lo Cons.prems show ?thesis by simp
    next
      case hi: False
      define k where "k = j2len_get j2len j + 1"
      from lo have "blo \<le> j" by simp
      from j2len_get_le[OF assms(1) this assms(2)]
      have kb: "k + alo \<le> i + 1" "k + blo \<le> j + 1" by (simp_all add: k_def)
      obtain bi bj bs where best: "best = (bi, bj, bs)" by (cases best)
      define nb where "nb = (if bs < k then (i + 1 - k, j + 1 - k, k) else best)"
      have k0: "k \<noteq> 0" by (simp add: k_def)
      have w: "in_region alo ahi blo bhi nb"
        using Cons.prems(2) kb k0 assms(3) hi by (auto simp: nb_def in_region_def best)
      have o: "j2len_ok alo blo (i + 1) ((j, k) # newj2len)"
        using Cons.prems(1) kb by (auto simp: j2len_ok_def)
      have "flm_row i blo bhi j2len js ((j, k) # newj2len) nb = (newj2len', best')"
        using Cons.prems(3) lo hi by (cases "bs < k") (simp_all add: k_def nb_def best Let_def)
      from Cons.IH[OF o w this] show ?thesis .
    qed
  qed
qed

lemma flm_rows_in_region:
  assumes "alo \<le> i" "j2len_ok alo blo i j2len" "in_region alo ahi blo bhi best"
  shows "in_region alo ahi blo bhi (flm_rows b2j a blo bhi [i..<ahi] j2len best)"
  using assms
proof (induction "ahi - i" arbitrary: i j2len best)
  case 0
  then show ?case by simp
next
  case (Suc n)
  then have lt: "i < ahi" by simp
  then have u: "[i..<ahi] = i # [Suc i..<ahi]" by (simp add: upt_conv_Cons)
  obtain nj nb where r: "flm_row i blo bhi j2len (b2j (a ! i)) [] best = (nj, nb)"
    by (cases "flm_row i blo bhi j2len (b2j (a ! i)) [] best")
  have e: "j2len_ok alo blo (i + 1) []" by (simp add: j2len_ok_def)
  from flm_row_in_region[OF Suc.prems(2) Suc.prems(1) lt e Suc.prems(3) r]
  have ok: "j2len_ok alo blo (Suc i) nj" "in_region alo ahi blo bhi nb" by simp_all
  have n: "n = ahi - Suc i" using Suc.hyps(2) by simp
  have "alo \<le> Suc i" using Suc.prems(1) by simp
  from Suc.hyps(1)[OF n this ok] show ?case by (simp add: u r)
qed

lemma extend_back_in_region:
  "in_region alo ahi blo bhi m \<Longrightarrow> in_region alo ahi blo bhi (extend_back P a b alo blo m)"
proof (induction P a b alo blo m rule: extend_back.induct)
  case (1 P a b alo blo besti bestj bestsize)
  show ?case
  proof (cases "alo < besti \<and> blo < bestj \<and> P (b ! (bestj - 1)) \<and> a ! (besti - 1) = b ! (bestj - 1)")
    case True
    have "in_region alo ahi blo bhi (besti - 1, bestj - 1, bestsize + 1)"
      using "1.prems" True by (auto simp: in_region_def split: if_splits)
    from "1.IH"[OF True this] True show ?thesis by (subst extend_back.simps) simp
  next
    case False
    with "1.prems" show ?thesis by (subst extend_back.simps) auto
  qed
qed

lemma extend_fwd_in_region:
  "in_region alo ahi blo bhi m \<Longrightarrow> in_region alo ahi blo bhi (extend_fwd P a b ahi bhi m)"
proof (induction P a b ahi bhi m rule: extend_fwd.induct)
  case (1 P a b ahi bhi besti bestj bestsize)
  show ?case
  proof (cases "besti + bestsize < ahi \<and> bestj + bestsize < bhi \<and> P (b ! (bestj + bestsize)) \<and>
         a ! (besti + bestsize) = b ! (bestj + bestsize)")
    case True
    have "in_region alo ahi blo bhi (besti, bestj, bestsize + 1)"
      using "1.prems" True by (auto simp: in_region_def split: if_splits)
    from "1.IH"[OF True this] True show ?thesis by (subst extend_fwd.simps) simp
  next
    case False
    with "1.prems" show ?thesis by (subst extend_fwd.simps) auto
  qed
qed

lemma find_longest_match_in_region:
  "in_region alo ahi blo bhi (find_longest_match isjunk a b alo ahi blo bhi)"
proof -
  have s: "in_region alo ahi blo bhi (alo, blo, 0)" by (simp add: in_region_def)
  have e: "j2len_ok alo blo alo []" by (simp add: j2len_ok_def)
  have "in_region alo ahi blo bhi (flm_rows (b2j_get isjunk b) a blo bhi [alo..<ahi] [] (alo, blo, 0))"
    by (rule flm_rows_in_region[OF le_refl e s])
  then show ?thesis
    by (simp add: find_longest_match_def Let_def extend_back_in_region extend_fwd_in_region)
qed

lemma find_longest_match_bounds:
  assumes "find_longest_match isjunk a b alo ahi blo bhi = (i, j, k)" "0 < k"
  shows "alo \<le> i \<and> i + k \<le> ahi \<and> blo \<le> j \<and> j + k \<le> bhi"
  using find_longest_match_in_region[of alo ahi blo bhi isjunk a b] assms
  by (simp add: in_region_def)

subsection \<open>\<open>get_matching_blocks\<close> and \<open>get_opcodes\<close>\<close>

type_synonym region = "nat \<times> nat \<times> nat \<times> nat"

function mb_loop :: "('a \<Rightarrow> bool) option \<Rightarrow> 'a list \<Rightarrow> 'a list \<Rightarrow> region list \<Rightarrow> block list \<Rightarrow> block list" where
  "mb_loop isjunk a b [] matching_blocks = matching_blocks"
| "mb_loop isjunk a b ((alo, ahi, blo, bhi) # queue) matching_blocks =
     (case find_longest_match isjunk a b alo ahi blo bhi of
        (i, j, k) \<Rightarrow>
          if k \<noteq> 0 then
            mb_loop isjunk a b
              ((if i + k < ahi \<and> j + k < bhi then [(i + k, ahi, j + k, bhi)] else []) @
               (if alo < i \<and> blo < j then [(alo, i, blo, j)] else []) @ queue)
              (matching_blocks @ [(i, j, k)])
          else mb_loop isjunk a b queue matching_blocks)"
  by pat_completeness auto
termination
proof (relation "measure (\<lambda>(isjunk, a, b, queue, mbs).
        sum_list (map (\<lambda>(alo, ahi, blo, bhi). 2 * (ahi - alo) + 1) queue))", goal_cases)
  case 1
  show ?case by simp
next
  case (2 isjunk a b alo ahi blo bhi queue matching_blocks i jk j k)
  then have f: "find_longest_match isjunk a b alo ahi blo bhi = (i, j, k)" and k: "0 < k"
    by simp_all
  from find_longest_match_bounds[OF f k] k show ?case by auto
next
  case (3 isjunk a b alo ahi blo bhi queue matching_blocks i jk j k)
  show ?case by simp
qed

fun collapse :: "block \<Rightarrow> block list \<Rightarrow> block list" where
  "collapse (i1, j1, k1) [] = (if k1 \<noteq> 0 then [(i1, j1, k1)] else [])"
| "collapse (i1, j1, k1) ((i2, j2, k2) # rest) =
     (if i1 + k1 = i2 \<and> j1 + k1 = j2 then collapse (i1, j1, k1 + k2) rest
      else (if k1 \<noteq> 0 then [(i1, j1, k1)] else []) @ collapse (i2, j2, k2) rest)"

definition get_matching_blocks :: "('a \<Rightarrow> bool) option \<Rightarrow> 'a list \<Rightarrow> 'a list \<Rightarrow> block list" where
  "get_matching_blocks isjunk a b =
     (let la = length a; lb = length b;
          matching_blocks = sort (mb_loop isjunk a b [(0, la, 0, lb)] [])
      in collapse (0, 0, 0) matching_blocks @ [(la, lb, 0)])"

datatype tag = Replace | Delete | Insert | Equal

type_synonym opcode = "tag \<times> nat \<times> nat \<times> nat \<times> nat"

fun opcodes_loop :: "nat \<Rightarrow> nat \<Rightarrow> block list \<Rightarrow> opcode list" where
  "opcodes_loop i j [] = []"
| "opcodes_loop i j ((ai, bj, sz) # rest) =
     (if i < ai \<and> j < bj then [(Replace, i, ai, j, bj)]
      else if i < ai then [(Delete, i, ai, j, bj)]
      else if j < bj then [(Insert, i, ai, j, bj)]
      else []) @
     (if sz \<noteq> 0 then [(Equal, ai, ai + sz, bj, bj + sz)] else []) @
     opcodes_loop (ai + sz) (bj + sz) rest"

definition get_opcodes :: "('a \<Rightarrow> bool) option \<Rightarrow> 'a list \<Rightarrow> 'a list \<Rightarrow> opcode list" where
  "get_opcodes isjunk a b = opcodes_loop 0 0 (get_matching_blocks isjunk a b)"

subsection \<open>Similarity ratios\<close>

definition calculate_ratio :: "nat \<Rightarrow> nat \<Rightarrow> rat" where
  "calculate_ratio matches len = (if len \<noteq> 0 then 2 * of_nat matches / of_nat len else 1)"

definition ratio :: "('a \<Rightarrow> bool) option \<Rightarrow> 'a list \<Rightarrow> 'a list \<Rightarrow> rat" where
  "ratio isjunk a b =
     calculate_ratio (sum_list (map (\<lambda>(i, j, k). k) (get_matching_blocks isjunk a b)))
       (length a + length b)"

fun quick_loop :: "'a list \<Rightarrow> 'a list \<Rightarrow> ('a \<times> int) list \<Rightarrow> nat \<Rightarrow> nat" where
  "quick_loop b [] avail matches = matches"
| "quick_loop b (elt # rest) avail matches =
     (let numb = (case map_of avail elt of Some n \<Rightarrow> n | None \<Rightarrow> int (count_list b elt))
      in quick_loop b rest ((elt, numb - 1) # avail) (if 0 < numb then matches + 1 else matches))"

definition quick_ratio :: "'a list \<Rightarrow> 'a list \<Rightarrow> rat" where
  "quick_ratio a b = calculate_ratio (quick_loop b a [] 0) (length a + length b)"

definition real_quick_ratio :: "'a list \<Rightarrow> 'a list \<Rightarrow> rat" where
  "real_quick_ratio a b = calculate_ratio (min (length a) (length b)) (length a + length b)"

section \<open>\<open>difflib.Differ\<close>\<close>

definition isspace :: "char \<Rightarrow> bool" where
  "isspace c = (c \<in> set [CHR 0x09, CHR 0x0A, CHR 0x0B, CHR 0x0C, CHR 0x0D, CHR 0x1C, CHR 0x1D,
                          CHR 0x1E, CHR 0x1F, CHR 0x20, CHR 0x85, CHR 0xA0])"

definition IS_CHARACTER_JUNK :: "char \<Rightarrow> bool" where
  "IS_CHARACTER_JUNK ch = (ch \<in> set [space_chr, tab_chr])"


definition dump :: "char \<Rightarrow> string list \<Rightarrow> nat \<Rightarrow> nat \<Rightarrow> string list" where
  "dump tag x lo hi = map (\<lambda>i. [tag, space_chr] @ x ! i) [lo..<hi]"

definition plain_replace :: "string list \<Rightarrow> nat \<Rightarrow> nat \<Rightarrow> string list \<Rightarrow> nat \<Rightarrow> nat \<Rightarrow> string list" where
  "plain_replace a alo ahi b blo bhi =
     (if bhi - blo < ahi - alo then dump CHR ''+'' b blo bhi @ dump CHR ''-'' a alo ahi
      else dump CHR ''-'' a alo ahi @ dump CHR ''+'' b blo bhi)"

text \<open>
  The search of \<open>_fancy_replace\<close> for the best pair.  The state is
  \<open>(best_ratio, best_i, best_j)\<close>, which is \<open>None\<close> while \<open>best_ratio\<close> is still
  0.74 and \<open>best_i\<close>, \<open>best_j\<close> are unbound, and \<open>(eqi, eqj)\<close>.
\<close>

type_synonym search = "(rat \<times> nat \<times> nat) option \<times> (nat \<times> nat) option"

definition best_ratio :: "(rat \<times> nat \<times> nat) option \<Rightarrow> rat" where
  "best_ratio best = (case best of None \<Rightarrow> 74 / 100 | Some (r, i, j) \<Rightarrow> r)"

fun search_row :: "(char \<Rightarrow> bool) option \<Rightarrow> string list \<Rightarrow> string \<Rightarrow> nat \<Rightarrow> nat list \<Rightarrow> search \<Rightarrow> search" where
  "search_row charjunk a bj j [] st = st"
| "search_row charjunk a bj j (i # is) (best, eq) =
     (let ai = a ! i in
      if ai = bj then
        search_row charjunk a bj j is (best, (case eq of None \<Rightarrow> Some (i, j) | Some e \<Rightarrow> Some e))
      else if best_ratio best < real_quick_ratio ai bj \<and> best_ratio best < quick_ratio ai bj \<and>
              best_ratio best < ratio charjunk ai bj
      then search_row charjunk a bj j is (Some (ratio charjunk ai bj, i, j), eq)
      else search_row charjunk a bj j is (best, eq))"

fun search_rows :: "(char \<Rightarrow> bool) option \<Rightarrow> string list \<Rightarrow> string list \<Rightarrow> nat list \<Rightarrow> nat list \<Rightarrow> search \<Rightarrow> search" where
  "search_rows charjunk a b is [] st = st"
| "search_rows charjunk a b is (j # js) st =
     search_rows charjunk a b is js (search_row charjunk a (b ! j) j is st)"

text \<open>
  After the search: \<open>None\<close> when the block is a straight replace, else
  \<open>(best_i, best_j, identical)\<close> where \<open>identical\<close> says that \<open>eqi\<close> is not None.
\<close>

definition synch_point :: "search \<Rightarrow> (nat \<times> nat \<times> bool) option" where
  "synch_point st =
     (case st of (best, eq) \<Rightarrow>
        if best_ratio best < 75 / 100 then
          (case eq of None \<Rightarrow> None | Some (eqi, eqj) \<Rightarrow> Some (eqi, eqj, True))
        else
          (case best of None \<Rightarrow> None | Some (r, best_i, best_j) \<Rightarrow> Some (best_i, best_j, False)))"

fun tags_loop :: "opcode list \<Rightarrow> string \<Rightarrow> string \<Rightarrow> string \<times> string" where
  "tags_loop [] atags btags = (atags, btags)"
| "tags_loop ((tag, ai1, ai2, bj1, bj2) # rest) atags btags =
     (let la = ai2 - ai1; lb = bj2 - bj1 in
      case tag of
        Replace \<Rightarrow> tags_loop rest (atags @ replicate la CHR ''^'') (btags @ replicate lb CHR ''^'')
      | Delete \<Rightarrow> tags_loop rest (atags @ replicate la CHR ''-'') btags
      | Insert \<Rightarrow> tags_loop rest atags (btags @ replicate lb CHR ''+'')
      | Equal \<Rightarrow> tags_loop rest (atags @ replicate la space_chr) (btags @ replicate lb space_chr))"

definition keep_original_ws :: "string \<Rightarrow> string \<Rightarrow> string" where
  "keep_original_ws s tag_s =
     map (\<lambda>(c, tag_c). if tag_c = space_chr \<and> isspace c then c else tag_c) (zip s tag_s)"

definition rstrip_ws :: "string \<Rightarrow> string" where
  "rstrip_ws s = rev (dropWhile isspace (rev s))"

definition qformat :: "string \<Rightarrow> string \<Rightarrow> string \<Rightarrow> string \<Rightarrow> string list" where
  "qformat aline bline atags btags =
     (let atags' = rstrip_ws (keep_original_ws aline atags);
          btags' = rstrip_ws (keep_original_ws bline btags)
      in [''- '' @ aline] @
         (if atags' \<noteq> [] then [''? '' @ atags' @ [newline_chr]] else []) @
         [''+ '' @ bline] @
         (if btags' \<noteq> [] then [''? '' @ btags' @ [newline_chr]] else []))"

definition synch_lines :: "(char \<Rightarrow> bool) option \<Rightarrow> string \<Rightarrow> string \<Rightarrow> bool \<Rightarrow> string list" where
  "synch_lines charjunk aelt belt identical =
     (if identical then [''  '' @ aelt]
      else
        (case tags_loop (get_opcodes charjunk aelt belt) [] [] of
           (atags, btags) \<Rightarrow> qformat aelt belt atags btags))"

lemma search_row_range:
  assumes "search_row charjunk a bj j is st = st'"
    and "\<forall>r i' j'. fst st = Some (r, i', j') \<longrightarrow> i' \<in> S \<and> j' \<in> T"
    and "\<forall>i' j'. snd st = Some (i', j') \<longrightarrow> i' \<in> S \<and> j' \<in> T"
    and "set is \<subseteq> S" "j \<in> T"
  shows "(\<forall>r i' j'. fst st' = Some (r, i', j') \<longrightarrow> i' \<in> S \<and> j' \<in> T) \<and>
         (\<forall>i' j'. snd st' = Some (i', j') \<longrightarrow> i' \<in> S \<and> j' \<in> T)"
  using assms
proof (induction "is" arbitrary: st)
  case Nil
  then show ?case by simp
next
  case (Cons i "is")
  obtain best eq where st: "st = (best, eq)" by (cases st)
  define nst where "nst =
     (if a ! i = bj then (best, (case eq of None \<Rightarrow> Some (i, j) | Some e \<Rightarrow> Some e))
      else if best_ratio best < real_quick_ratio (a ! i) bj \<and> best_ratio best < quick_ratio (a ! i) bj \<and>
              best_ratio best < ratio charjunk (a ! i) bj
      then (Some (ratio charjunk (a ! i) bj, i, j), eq) else (best, eq))"
  have r: "search_row charjunk a bj j is nst = st'"
  proof (cases "a ! i = bj")
    case True
    with Cons.prems(1) show ?thesis by (simp add: st nst_def Let_def)
  next
    case ne: False
    show ?thesis
    proof (cases "best_ratio best < real_quick_ratio (a ! i) bj \<and> best_ratio best < quick_ratio (a ! i) bj \<and>
              best_ratio best < ratio charjunk (a ! i) bj")
      case True
      with ne Cons.prems(1) show ?thesis by (simp add: st nst_def Let_def)
    next
      case False
      with ne Cons.prems(1) show ?thesis by (auto simp: st nst_def Let_def)
    qed
  qed
  have p1: "\<forall>r i' j'. fst nst = Some (r, i', j') \<longrightarrow> i' \<in> S \<and> j' \<in> T"
    using Cons.prems(2,4,5) by (auto simp: nst_def st)
  have p2: "\<forall>i' j'. snd nst = Some (i', j') \<longrightarrow> i' \<in> S \<and> j' \<in> T"
    using Cons.prems(3,4,5) by (auto simp: nst_def st split: option.splits)
  from Cons.prems(4) have "set is \<subseteq> S" by simp
  from Cons.IH[OF r p1 p2 this Cons.prems(5)] show ?case .
qed

lemma search_rows_range:
  assumes "search_rows charjunk a b is js st = st'"
    and "\<forall>r i' j'. fst st = Some (r, i', j') \<longrightarrow> i' \<in> S \<and> j' \<in> T"
    and "\<forall>i' j'. snd st = Some (i', j') \<longrightarrow> i' \<in> S \<and> j' \<in> T"
    and "set is \<subseteq> S" "set js \<subseteq> T"
  shows "(\<forall>r i' j'. fst st' = Some (r, i', j') \<longrightarrow> i' \<in> S \<and> j' \<in> T) \<and>
         (\<forall>i' j'. snd st' = Some (i', j') \<longrightarrow> i' \<in> S \<and> j' \<in> T)"
  using assms
proof (induction js arbitrary: st)
  case Nil
  then show ?case by simp
next
  case (Cons j js)
  define nst where "nst = search_row charjunk a (b ! j) j is st"
  from Cons.prems(5) have j: "j \<in> T" and js: "set js \<subseteq> T" by simp_all
  from search_row_range[OF nst_def[symmetric] Cons.prems(2,3,4) j]
  have p: "\<forall>r i' j'. fst nst = Some (r, i', j') \<longrightarrow> i' \<in> S \<and> j' \<in> T"
          "\<forall>i' j'. snd nst = Some (i', j') \<longrightarrow> i' \<in> S \<and> j' \<in> T" by blast+
  have r: "search_rows charjunk a b is js nst = st'" using Cons.prems(1) by (simp add: nst_def)
  from Cons.IH[OF r p Cons.prems(4) js] show ?case .
qed

lemma synch_point_range:
  assumes "synch_point (search_rows charjunk a b [alo..<ahi] [blo..<bhi] (None, None)) = Some (i, j, ident)"
  shows "alo \<le> i \<and> i < ahi \<and> blo \<le> j \<and> j < bhi"
proof -
  obtain best eq where s: "search_rows charjunk a b [alo..<ahi] [blo..<bhi] (None, None) = (best, eq)"
    by (cases "search_rows charjunk a b [alo..<ahi] [blo..<bhi] (None, None)")
  from search_rows_range[OF s, of "{alo..<ahi}" "{blo..<bhi}"]
  have p: "(\<forall>r i' j'. best = Some (r, i', j') \<longrightarrow> i' \<in> {alo..<ahi} \<and> j' \<in> {blo..<bhi})"
          "(\<forall>i' j'. eq = Some (i', j') \<longrightarrow> i' \<in> {alo..<ahi} \<and> j' \<in> {blo..<bhi})" by simp_all
  from assms p show ?thesis
    by (auto simp: s synch_point_def split: if_splits option.splits)
qed

text \<open>
  \<open>_fancy_replace\<close> and \<open>_fancy_helper\<close> call each other.  The recursion
  limit of the interpreter is not part of the model: the two functions are total here,
  whereas CPython raises \<open>RecursionError\<close> inside \<open>difflib\<close> when a
  block of replaced lines holds several hundred pairs of similar lines.
\<close>

function fancy_replace :: "(char \<Rightarrow> bool) option \<Rightarrow> string list \<Rightarrow> nat \<Rightarrow> nat \<Rightarrow> string list \<Rightarrow> nat \<Rightarrow> nat \<Rightarrow> string list"
  and fancy_helper :: "(char \<Rightarrow> bool) option \<Rightarrow> string list \<Rightarrow> nat \<Rightarrow> nat \<Rightarrow> string list \<Rightarrow> nat \<Rightarrow> nat \<Rightarrow> string list"
  where
  "fancy_replace charjunk a alo ahi b blo bhi =
     (case synch_point (search_rows charjunk a b [alo..<ahi] [blo..<bhi] (None, None)) of
        None \<Rightarrow> plain_replace a alo ahi b blo bhi
      | Some (best_i, best_j, identical) \<Rightarrow>
          fancy_helper charjunk a alo best_i b blo best_j @
          synch_lines charjunk (a ! best_i) (b ! best_j) identical @
          fancy_helper charjunk a (best_i + 1) ahi b (best_j + 1) bhi)"
| "fancy_helper charjunk a alo ahi b blo bhi =
     (if alo < ahi then
        (if blo < bhi then fancy_replace charjunk a alo ahi b blo bhi
         else dump CHR ''-'' a alo ahi)
      else if blo < bhi then dump CHR ''+'' b blo bhi
      else [])"
  by pat_completeness auto
termination
proof (relation "measure (\<lambda>x. case x of
          Inl (charjunk, a, alo, ahi, b, blo, bhi) \<Rightarrow> 2 * (ahi - alo) + 1
        | Inr (charjunk, a, alo, ahi, b, blo, bhi) \<Rightarrow> 2 * (ahi - alo) + 2)", goal_cases)
  case 1
  show ?case by simp
next
  case (2 charjunk a alo ahi b blo bhi x2 best_i y best_j identical)
  then have "synch_point (search_rows charjunk a b [alo..<ahi] [blo..<bhi] (None, None)) = Some (best_i, best_j, identical)"
    by simp
  from synch_point_range[OF this] show ?case by (simp; arith)
next
  case (3 charjunk a alo ahi b blo bhi x2 best_i y best_j identical)
  then have "synch_point (search_rows charjunk a b [alo..<ahi] [blo..<bhi] (None, None)) = Some (best_i, best_j, identical)"
    by simp
  from synch_point_range[OF this] show ?case by (simp; arith)
next
  case (4 charjunk a alo ahi b blo bhi)
  show ?case by simp
qed

declare fancy_replace.simps [simp del] fancy_helper.simps [simp del]

definition compare :: "(string \<Rightarrow> bool) option \<Rightarrow> (char \<Rightarrow> bool) option \<Rightarrow> string list \<Rightarrow> string list \<Rightarrow> string list" where
  "compare linejunk charjunk a b =
     concat (map (\<lambda>(tag, alo, ahi, blo, bhi).
        case tag of
          Replace \<Rightarrow> fancy_replace charjunk a alo ahi b blo bhi
        | Delete \<Rightarrow> dump CHR ''-'' a alo ahi
        | Insert \<Rightarrow> dump CHR ''+'' b blo bhi
        | Equal \<Rightarrow> dump space_chr a alo ahi) (get_opcodes linejunk a b))"

definition ndiff :: "string list \<Rightarrow> string list \<Rightarrow> (string \<Rightarrow> bool) option \<Rightarrow> (char \<Rightarrow> bool) option \<Rightarrow> string list" where
  "ndiff a b linejunk charjunk = compare linejunk charjunk a b"

section \<open>\<open>difflib._mdiff\<close>\<close>

text \<open>
  A generator is modelled by the list of what it yields.  A computation returns a value,
  raises, or does not return.
\<close>

datatype 'a outcome = Returns 'a | Raises error | Diverges

definition obind :: "'a outcome \<Rightarrow> ('a \<Rightarrow> 'b outcome) \<Rightarrow> 'b outcome" where
  "obind m f = (case m of Returns x \<Rightarrow> f x | Raises e \<Rightarrow> Raises e | Diverges \<Rightarrow> Diverges)"

lemma obind_cong [fundef_cong]:
  "m = m' \<Longrightarrow> (\<And>x. m' = Returns x \<Longrightarrow> f x = f' x) \<Longrightarrow> obind m f = obind m' f'"
  by (cases m') (simp_all add: obind_def)

text \<open>What a generator yields before it goes on as \<open>r\<close>.\<close>

definition yields :: "'a list \<Rightarrow> 'a list outcome \<Rightarrow> 'a list outcome" where
  "yields xs r = obind r (\<lambda>rest. Returns (xs @ rest))"

definition soh_chr :: char where "soh_chr = CHR 0x01"

definition is_change_chr :: "char \<Rightarrow> bool" where
  "is_change_chr c = (c = CHR ''+'' \<or> c = CHR ''-'' \<or> c = CHR ''^'')"

text \<open>
  \<open>change_re.sub(record_sub_info, markers)\<close> with \<open>change_re = (\++|\-+|\^+)\<close>:
  the maximal runs of one change character, each with its span.
\<close>

function sub_info :: "nat \<Rightarrow> string \<Rightarrow> (char \<times> nat \<times> nat) list" where
  "sub_info pos [] = []"
| "sub_info pos (c # cs) =
     (if is_change_chr c then
        (let n = Suc (length (takeWhile (\<lambda>x. x = c) cs))
         in (c, pos, pos + n) # sub_info (pos + n) (dropWhile (\<lambda>x. x = c) cs))
      else sub_info (Suc pos) cs)"
  by pat_completeness auto
termination
  by (relation "measure (\<lambda>(pos, s). length s)") (auto simp: length_dropWhile_le le_imp_less_Suc)

fun mark_up :: "(char \<times> nat \<times> nat) list \<Rightarrow> string \<Rightarrow> string" where
  "mark_up [] text = text"
| "mark_up ((key, start, stop) # rest) text =
     mark_up rest
       (take start text @ [nul_chr, key] @ drop start (take stop text) @ [soh_chr] @ drop stop text)"

type_synonym line_item = "lineref option \<times> lineref option \<times> bool"

text \<open>
  \<open>_make_line(lines, format_key, side)\<close>; \<open>num\<close> is \<open>num_lines[side]\<close> after its
  increment.  The result is the line and the list \<open>lines\<close> after the pops.
\<close>

definition make_line :: "string list \<Rightarrow> char option \<Rightarrow> nat \<Rightarrow> (lineref \<times> string list) outcome" where
  "make_line lines format_key num =
     (case format_key of
        None \<Rightarrow>
          (case lines of
             [] \<Rightarrow> Raises IndexError
           | l # rest \<Rightarrow> Returns ((Some (int num), drop 2 l), rest))
      | Some key \<Rightarrow>
          if key = CHR ''?'' then
            (case lines of
               text # markers # rest \<Rightarrow>
                 Returns ((Some (int num), drop 2 (mark_up (rev (sub_info 0 markers)) text)), rest)
             | _ \<Rightarrow> Raises IndexError)
          else
            (case lines of
               [] \<Rightarrow> Raises IndexError
             | l # rest \<Rightarrow>
                 (let text = drop 2 l;
                      text = (if text = [] then [space_chr] else text)
                  in Returns ((Some (int num), [nul_chr, key] @ text @ [soh_chr]), rest))))"

definition startswith :: "string \<Rightarrow> string \<Rightarrow> bool" where
  "startswith s p = (take (length p) s = p)"

text \<open>The first characters of the next four lines, \<open>X\<close> standing for a missing line.\<close>

definition lookahead :: "string list \<Rightarrow> string outcome" where
  "lookahead lines =
     (let four = take 4 (lines @ replicate 4 ''X'')
      in if [] \<in> set four then Raises IndexError else Returns (map hd four))"

definition blank_line :: lineref where
  "blank_line = (None, [newline_chr])"

definition blanks :: "int \<Rightarrow> line_item list" where
  "blanks num_blanks_to_yield =
     (if num_blanks_to_yield < 0 then replicate (nat (- num_blanks_to_yield)) (None, Some blank_line, True)
      else replicate (nat num_blanks_to_yield) (Some blank_line, None, True))"

lemma make_line_shorter:
  "make_line lines key num = Returns (l, lines') \<Longrightarrow> length lines' < length lines"
  by (auto simp: make_line_def Let_def split: option.splits if_splits list.splits)

function line_iterator ::
  "string list \<Rightarrow> int \<Rightarrow> nat \<Rightarrow> nat \<Rightarrow> (lineref option \<times> lineref option) option \<Rightarrow> line_item list outcome" where
  "line_iterator lines num_blanks_pending nfrom nto held =
     obind (lookahead lines) (\<lambda>s.
       if startswith s ''X'' then Returns (blanks num_blanks_pending)
       else if startswith s ''-?+?'' then
         obind (make_line lines (Some CHR ''?'') (nfrom + 1)) (\<lambda>(from_line, lines1).
         obind (make_line lines1 (Some CHR ''?'') (nto + 1)) (\<lambda>(to_line, lines2).
           yields [(Some from_line, Some to_line, True)]
             (line_iterator lines2 num_blanks_pending (nfrom + 1) (nto + 1) held)))
       else if startswith s ''--++'' then
         obind (make_line lines (Some CHR ''-'') (nfrom + 1)) (\<lambda>(from_line, lines1).
           yields [(Some from_line, None, True)]
             (line_iterator lines1 (num_blanks_pending - 1) (nfrom + 1) nto held))
       else if startswith s ''--?+'' \<or> startswith s ''--+'' \<or> startswith s ''- '' then
         obind (make_line lines (Some CHR ''-'') (nfrom + 1)) (\<lambda>(from_line, lines1).
           yields (blanks (num_blanks_pending - 1) @ [(Some from_line, None, True)])
             (line_iterator lines1 0 (nfrom + 1) nto (Some (Some from_line, None))))
       else if startswith s ''-+?'' then
         obind (make_line lines None (nfrom + 1)) (\<lambda>(from_line, lines1).
         obind (make_line lines1 (Some CHR ''?'') (nto + 1)) (\<lambda>(to_line, lines2).
           yields [(Some from_line, Some to_line, True)]
             (line_iterator lines2 num_blanks_pending (nfrom + 1) (nto + 1) held)))
       else if startswith s ''-?+'' then
         obind (make_line lines (Some CHR ''?'') (nfrom + 1)) (\<lambda>(from_line, lines1).
         obind (make_line lines1 None (nto + 1)) (\<lambda>(to_line, lines2).
           yields [(Some from_line, Some to_line, True)]
             (line_iterator lines2 num_blanks_pending (nfrom + 1) (nto + 1) held)))
       else if startswith s ''-'' then
         obind (make_line lines (Some CHR ''-'') (nfrom + 1)) (\<lambda>(from_line, lines1).
           yields [(Some from_line, None, True)]
             (line_iterator lines1 (num_blanks_pending - 1) (nfrom + 1) nto held))
       else if startswith s ''+--'' then
         obind (make_line lines (Some CHR ''+'') (nto + 1)) (\<lambda>(to_line, lines1).
           yields [(None, Some to_line, True)]
             (line_iterator lines1 (num_blanks_pending + 1) nfrom (nto + 1) held))
       else if startswith s ''+ '' \<or> startswith s ''+-'' then
         obind (make_line lines (Some CHR ''+'') (nto + 1)) (\<lambda>(to_line, lines1).
           yields (blanks (num_blanks_pending + 1) @ [(None, Some to_line, True)])
             (line_iterator lines1 0 nfrom (nto + 1) (Some (None, Some to_line))))
       else if startswith s ''+'' then
         obind (make_line lines (Some CHR ''+'') (nto + 1)) (\<lambda>(to_line, lines1).
           yields [(None, Some to_line, True)]
             (line_iterator lines1 (num_blanks_pending + 1) nfrom (nto + 1) held))
       else if startswith s '' '' then
         obind (make_line lines None (nfrom + 1)) (\<lambda>(from_line, lines0).
         obind (make_line lines None (nto + 1)) (\<lambda>(to_line, lines1).
           yields [(Some from_line, Some to_line, False)]
             (line_iterator lines1 num_blanks_pending (nfrom + 1) (nto + 1) held)))
       else
         (case held of None \<Rightarrow> Raises UnboundLocalError | Some h \<Rightarrow> Diverges))"
  by pat_completeness auto
termination
  by (relation "measure (\<lambda>(lines, p, nfrom, nto, held). length lines)")
     (auto dest!: make_line_shorter)

declare line_iterator.simps [simp del]

text \<open>\<open>_line_pair_iterator\<close>, with its two queues.\<close>

fun line_pair_iterator ::
  "(lineref \<times> bool) list \<Rightarrow> (lineref \<times> bool) list \<Rightarrow> line_item list \<Rightarrow> (lineref \<times> lineref \<times> bool) list" where
  "line_pair_iterator ((from_line, fromDiff) # fromlines) ((to_line, to_diff) # tolines) items =
     (from_line, to_line, fromDiff \<or> to_diff) # line_pair_iterator fromlines tolines items"
| "line_pair_iterator fromlines tolines [] = []"
| "line_pair_iterator fromlines tolines ((from_line, to_line, found_diff) # items) =
     line_pair_iterator
       (fromlines @ (case from_line of None \<Rightarrow> [] | Some l \<Rightarrow> [(l, found_diff)]))
       (tolines @ (case to_line of None \<Rightarrow> [] | Some l \<Rightarrow> [(l, found_diff)])) items"


text \<open>Context mode: the circular buffer \<open>contextLines\<close> and the three inner loops.\<close>

type_synonym pair = "lineref \<times> lineref \<times> bool"

fun collect_context :: "nat \<Rightarrow> nat \<Rightarrow> diff_item list \<Rightarrow> pair list \<Rightarrow> (nat \<times> diff_item list \<times> pair list) option" where
  "collect_context c index contextLines [] = None"
| "collect_context c index contextLines ((from_line, to_line, found_diff) # ps) =
     (let contextLines' = contextLines[index mod c := AlignedPair from_line to_line found_diff]
      in if found_diff then Some (index + 1, contextLines', ps)
         else collect_context c (index + 1) contextLines' ps)"

fun write_context :: "nat \<Rightarrow> nat \<Rightarrow> nat \<Rightarrow> diff_item list \<Rightarrow> diff_item list" where
  "write_context c index 0 contextLines = []"
| "write_context c index (Suc lines_to_write) contextLines =
     contextLines ! (index mod c) # write_context c (index + 1) lines_to_write contextLines"

fun after_context :: "nat \<Rightarrow> nat \<Rightarrow> pair list \<Rightarrow> diff_item list \<times> pair list option" where
  "after_context c 0 ps = ([], Some ps)"
| "after_context c (Suc lines_to_write) [] = ([], None)"
| "after_context c (Suc lines_to_write) ((from_line, to_line, found_diff) # ps) =
     (case after_context c (if found_diff then c - 1 else lines_to_write) ps of
        (ys, r) \<Rightarrow> (AlignedPair from_line to_line found_diff # ys, r))"

lemma collect_context_shorter:
  "collect_context c index contextLines ps = Some (index', contextLines', ps') \<Longrightarrow>
   length ps' < length ps"
  by (induction c index contextLines ps rule: collect_context.induct)
     (auto simp: Let_def split: if_splits)

lemma after_context_shorter:
  "after_context c n ps = (ys, Some ps') \<Longrightarrow> length ps' \<le> length ps"
  by (induction c n ps arbitrary: ys rule: after_context.induct)
     (auto split: prod.splits if_splits)

function context_loop :: "nat \<Rightarrow> pair list \<Rightarrow> diff_item list" where
  "context_loop c ps =
     (case collect_context c 0 (replicate c Separator) ps of
        None \<Rightarrow> []
      | Some (index, contextLines, ps1) \<Rightarrow>
          (if c < index then Separator # write_context c index c contextLines
           else write_context c 0 index contextLines) @
          (case after_context c (c - 1) ps1 of
             (ys, None) \<Rightarrow> ys
           | (ys, Some ps2) \<Rightarrow> ys @ context_loop c ps2))"
  by pat_completeness auto
termination
proof (relation "measure (\<lambda>(c, ps). length ps)", goal_cases)
  case 1
  show ?case by simp
next
  case 2
  then show ?case
    using collect_context_shorter after_context_shorter
    by (metis (no_types, lifting) in_measure case_prod_conv le_less_trans)
qed

declare context_loop.simps [simp del]

definition mdiff ::
  "string list \<Rightarrow> string list \<Rightarrow> int option \<Rightarrow> (string \<Rightarrow> bool) option \<Rightarrow> (char \<Rightarrow> bool) option \<Rightarrow>
   diff_item list outcome" where
  "mdiff fromlines tolines context linejunk charjunk =
     obind (line_iterator (ndiff fromlines tolines linejunk charjunk) 0 0 0 None) (\<lambda>items.
       let pairs = line_pair_iterator [] [] items in
       case context of
         None \<Rightarrow> Returns (map (\<lambda>(from_line, to_line, found_diff).
                              AlignedPair from_line to_line found_diff) pairs)
       | Some n \<Rightarrow>
           (let c = n + 1 in
            if pairs = [] then Returns []
            else if c = 0 then Raises ZeroDivisionError
            else if c < 0 then Raises IndexError
            else Returns (context_loop (nat c) pairs)))"

section \<open>\<open>CodeDiff\<close>\<close>

record CodeDiff =
  filename :: "string option"
  fromfile :: string
  tofile :: string
  fromlines :: "string list"
  tolines :: "string list"
  leftcode :: string
  rightcode :: string

text \<open>
  \<open>f.readlines()\<close> of a file opened in text mode with universal newlines, from the
  decoded text of the file: \<open>\r\n\<close> and \<open>\r\<close> are read as \<open>\n\<close>, and every line
  keeps its terminator.
\<close>

fun universal_newlines :: "string \<Rightarrow> string" where
  "universal_newlines [] = []"
| "universal_newlines [c] = [if c = cr_chr then newline_chr else c]"
| "universal_newlines (c # d # cs) =
     (if c = cr_chr \<and> d = newline_chr then newline_chr # universal_newlines cs
      else if c = cr_chr then newline_chr # universal_newlines (d # cs)
      else c # universal_newlines (d # cs))"

fun keepends :: "string \<Rightarrow> string \<Rightarrow> string list" where
  "keepends cur [] = (if cur = [] then [] else [cur])"
| "keepends cur (c # cs) =
     (if c = newline_chr then (cur @ [c]) # keepends [] cs else keepends (cur @ [c]) cs)"

definition readlines :: "string \<Rightarrow> string list" where
  "readlines content = keepends [] (universal_newlines content)"

text \<open>\<open>txt.split("\n")\<close>\<close>

fun split_acc :: "string \<Rightarrow> string \<Rightarrow> string list" where
  "split_acc cur [] = [cur]"
| "split_acc cur (c # cs) =
     (if c = newline_chr then cur # split_acc [] cs else split_acc (cur @ [c]) cs)"

definition split_newline :: "string \<Rightarrow> string list" where
  "split_newline txt = split_acc [] txt"

text \<open>\<open>[n + "\n" for n in txt.split("\n")]\<close>\<close>

definition text_lines :: "string \<Rightarrow> string list" where
  "text_lines txt = map (\<lambda>n. n @ [newline_chr]) (split_newline txt)"

text \<open>
  \<open>CodeDiff.__init__\<close>.  \<open>files\<close> gives the decoded text of a file, or \<open>None\<close>
  when it cannot be opened or read (the constructor then calls \<open>sys.exit(1)\<close>).
\<close>

definition input_lines :: "(string \<Rightarrow> string option) \<Rightarrow> string \<Rightarrow> string option \<Rightarrow> string list outcome" where
  "input_lines files path txt =
     (case txt of
        None \<Rightarrow> (case files path of None \<Rightarrow> Raises SystemExit | Some content \<Rightarrow> Returns (readlines content))
      | Some t \<Rightarrow> Returns (text_lines t))"

definition init ::
  "(string \<Rightarrow> string option) \<Rightarrow> string \<Rightarrow> string \<Rightarrow> string option \<Rightarrow> string option \<Rightarrow> string option \<Rightarrow>
   CodeDiff outcome" where
  "init files fromfile' tofile' fromtxt totxt name =
     obind (input_lines files fromfile' fromtxt) (\<lambda>fl.
     obind (input_lines files tofile' totxt) (\<lambda>tl.
       Returns \<lparr>filename = name, fromfile = fromfile', tofile = tofile',
                fromlines = fl, tolines = tl, leftcode = concat fl, rightcode = concat tl\<rparr>))"

definition getDiffDetails :: "CodeDiff \<Rightarrow> bool \<Rightarrow> int \<Rightarrow> int \<Rightarrow> (CodeDiff \<times> diff_item list) outcome" where
  "getDiffDetails self context numlines tabSize =
     (let self1 = self\<lparr>fromlines := map (expand_tabs tabSize) (fromlines self)\<rparr>;
          self2 = self1\<lparr>tolines := map (expand_tabs tabSize) (tolines self1)\<rparr>;
          context_lines = (if context then Some numlines else None)
      in obind (mdiff (fromlines self2) (tolines self2) context_lines None (Some IS_CHARACTER_JUNK))
           (\<lambda>ds. Returns (self2, ds)))"

text \<open>
  \<open>CodeDiff.format\<close> up to \<open>codeContents\<close>.  \<open>highlight name code isLeft ds\<close>
  stands for \<open>pygments.highlight(code, lexer, DiffHtmlFormatter(isLeft, ds, ...))\<close>
  with the lexer guessed from \<open>name\<close> and \<open>code\<close>.
\<close>

definition format ::
  "(string option \<Rightarrow> string \<Rightarrow> bool \<Rightarrow> diff_item list \<Rightarrow> string) \<Rightarrow> CodeDiff \<Rightarrow>
   (CodeDiff \<times> diff_item list \<times> string list) outcome" where
  "format highlight self =
     obind (getDiffDetails self False 5 8) (\<lambda>(self1, ds).
       let fields = [(leftcode self1, True, fromfile self1), (rightcode self1, False, tofile self1)];
           codeContents = map (\<lambda>(code, isLeft, fname). highlight (filename self1) code isLeft ds) fields
       in Returns (self1, ds, codeContents))"

section \<open>Predicates used in the statements\<close>

text \<open>The characters that tab expansion neither inserts nor strips.\<close>

definition kept :: "char \<Rightarrow> bool" where "kept c = (c \<noteq> tab_chr \<and> c \<noteq> newline_chr)"

text \<open>A pair renders when the \<open>try\<close> block of \<open>_wrap_code\<close> reaches its \<open>yield\<close>.\<close>

fun renders :: "bool \<Rightarrow> (int \<times> string) list \<Rightarrow> diff_item \<Rightarrow> bool" where
  "renders isLeft source (AlignedPair left right change) =
     (case wrap_pair isLeft source left right change of Inl e \<Rightarrow> False | Inr y \<Rightarrow> True)"
| "renders isLeft source Separator = False"


text \<open>
  What the guards of \<open>_wrap_code\<close> ask of a pair, for a pane with \<open>n\<close>
  highlighted lines: its line number on the rendered side is an int \<open>no\<close> with
  \<open>1 - n \<le> no\<close> (so that \<open>source[no - 1]\<close> is an element of the list), and
  \<open>no \<le> n\<close> when the pair is changed; or the pair is changed, has no line number
  on the rendered side and has one on the other side.  A pair with its line number in
  \<open>1..n\<close> is of the first kind.
\<close>

fun associable :: "bool \<Rightarrow> nat \<Rightarrow> diff_item \<Rightarrow> bool" where
  "associable isLeft n (AlignedPair left right change) =
     (case (if isLeft then fst left else fst right) of
        Some no \<Rightarrow> 1 - int n \<le> no \<and> (if change then no \<le> int n else True)
      | None \<Rightarrow> change \<and> (if isLeft then fst right else fst left) \<noteq> None)"
| "associable isLeft n Separator = False"

text \<open>
  The aligned sequence of a freshly constructed \<open>CodeDiff\<close>, as \<open>format\<close>
  computes it: \<open>getDiffDetails\<close> with its default arguments.
\<close>

definition aligned_sequence :: "CodeDiff outcome \<Rightarrow> diff_item list outcome" where
  "aligned_sequence c =
     obind c (\<lambda>self. obind (getDiffDetails self False 5 8) (\<lambda>(self', ds). Returns ds))"

text \<open>
  The line numbers of an element of the sequence, and the line numbers that are present
  (an int, not the placeholder \<open>''\<close>) in a list of them, in their order.
\<close>

fun left_number :: "diff_item \<Rightarrow> int option" where
  "left_number (AlignedPair left right change) = fst left"
| "left_number Separator = None"

fun right_number :: "diff_item \<Rightarrow> int option" where
  "right_number (AlignedPair left right change) = fst right"
| "right_number Separator = None"

definition present :: "int option list \<Rightarrow> int list" where
  "present nos = concat (map (\<lambda>no. case no of None \<Rightarrow> [] | Some n \<Rightarrow> [n]) nos)"

text \<open>
  An aligned pair with a line number on at least one side.
\<close>

fun has_line_number :: "diff_item \<Rightarrow> bool" where
  "has_line_number (AlignedPair left right change) = (fst left \<noteq> None \<or> fst right \<noteq> None)"
| "has_line_number Separator = False"

section \<open>Notions used in the proofs about \<open>difflib\<close>\<close>

text \<open>
  Matching blocks.  A chain of non-empty blocks runs in increasing order inside a region
  of the two sequences; the blocks returned by \<open>get_matching_blocks\<close> tile both
  sequences up to their ends.
\<close>

fun chain_to :: "nat \<Rightarrow> nat \<Rightarrow> block list \<Rightarrow> nat \<Rightarrow> nat \<Rightarrow> bool" where
  "chain_to i j [] ahi bhi = (i \<le> ahi \<and> j \<le> bhi)"
| "chain_to i j ((ai, bj, sz) # rest) ahi bhi =
     (i \<le> ai \<and> j \<le> bj \<and> 0 < sz \<and> chain_to (ai + sz) (bj + sz) rest ahi bhi)"

fun tiles :: "nat \<Rightarrow> nat \<Rightarrow> block list \<Rightarrow> nat \<Rightarrow> nat \<Rightarrow> bool" where
  "tiles i j [] la lb = (i = la \<and> j = lb)"
| "tiles i j ((ai, bj, sz) # rest) la lb =
     (i \<le> ai \<and> j \<le> bj \<and> tiles (ai + sz) (bj + sz) rest la lb)"

definition region_chain :: "region \<Rightarrow> block list \<Rightarrow> bool" where
  "region_chain r c = (case r of (alo, ahi, blo, bhi) \<Rightarrow> chain_to alo blo c ahi bhi)"

definition region_ok :: "region \<Rightarrow> bool" where
  "region_ok r = (case r of (alo, ahi, blo, bhi) \<Rightarrow> alo \<le> ahi \<and> blo \<le> bhi)"

definition block_size :: "block \<Rightarrow> nat" where
  "block_size m = snd (snd m)"

text \<open>
  The delta of \<open>Differ.compare\<close>: lines tagged with a blank (in both sequences),
  \<open>-\<close> (only in the first), \<open>+\<close> (only in the second), and the groups that
  \<open>_qformat\<close> writes for a pair of similar lines, with their \<open>?\<close> guide
  lines.  \<open>from_count\<close> and \<open>to_count\<close> count the lines of each sequence in
  a delta; \<open>render\<close> is the delta of one opcode.
\<close>

inductive delta :: "string list \<Rightarrow> bool" where
  delta_Nil: "delta []"
| delta_Eq: "delta L \<Longrightarrow> delta ((CHR '' '' # r) # L)"
| delta_Del: "delta L \<Longrightarrow> delta ((CHR ''-'' # r) # L)"
| delta_Ins: "delta L \<Longrightarrow> delta ((CHR ''+'' # r) # L)"
| delta_Chg: "delta L \<Longrightarrow>
    delta ((CHR ''-'' # r1) # (CHR ''?'' # r2) # (CHR ''+'' # r3) # (CHR ''?'' # r4) # L)"
| delta_ChgB: "delta L \<Longrightarrow> delta ((CHR ''-'' # r1) # (CHR ''+'' # r3) # (CHR ''?'' # r4) # L)"
| delta_ChgA: "delta L \<Longrightarrow> delta ((CHR ''-'' # r1) # (CHR ''?'' # r2) # (CHR ''+'' # r3) # L)"

definition from_count :: "string list \<Rightarrow> nat" where
  "from_count L = length (filter (\<lambda>l. take 1 l = ''-'' \<or> take 1 l = '' '') L)"

definition to_count :: "string list \<Rightarrow> nat" where
  "to_count L = length (filter (\<lambda>l. take 1 l = ''+'' \<or> take 1 l = '' '') L)"

definition render :: "(char \<Rightarrow> bool) option \<Rightarrow> string list \<Rightarrow> string list \<Rightarrow> opcode \<Rightarrow> string list" where
  "render charjunk a b = (\<lambda>(tag, alo, ahi, blo, bhi).
        case tag of
          Replace \<Rightarrow> fancy_replace charjunk a alo ahi b blo bhi
        | Delete \<Rightarrow> dump CHR ''-'' a alo ahi
        | Insert \<Rightarrow> dump CHR ''+'' b blo bhi
        | Equal \<Rightarrow> dump space_chr a alo ahi)"

definition tag4 :: "string list \<Rightarrow> string" where
  "tag4 L = map hd (take 4 (L @ replicate 4 ''X''))"

text \<open>
  What \<open>_line_pair_iterator\<close> queues for each side from the items of
  \<open>_line_iterator\<close>, and the pairs it makes of the two queues.  The two queues are
  balanced for \<open>num_blanks_pending = p\<close> when, once the pending blank lines are
  added, they pair up position by position with a real line (a line with a number) on at
  least one side.  \<open>good\<close> is the invariant of the loop of
  \<open>_line_iterator\<close>: the generator returns, its two queues are balanced, and
  the line numbers it gives out on each side are the next \<open>cf\<close> numbers after
  \<open>nf\<close> and the next \<open>ct\<close> numbers after \<open>nt\<close>.
\<close>

definition froms :: "line_item list \<Rightarrow> (lineref \<times> bool) list" where
  "froms items = concat (map (\<lambda>(f, t, d). case f of None \<Rightarrow> [] | Some l \<Rightarrow> [(l, d)]) items)"

definition tos :: "line_item list \<Rightarrow> (lineref \<times> bool) list" where
  "tos items = concat (map (\<lambda>(f, t, d). case t of None \<Rightarrow> [] | Some l \<Rightarrow> [(l, d)]) items)"

definition pair_up :: "(lineref \<times> bool) list \<Rightarrow> (lineref \<times> bool) list \<Rightarrow> pair list" where
  "pair_up F T = map (\<lambda>((f, fd), (t, td)). (f, t, fd \<or> td)) (zip F T)"

definition real_line :: "lineref \<times> bool \<Rightarrow> bool" where
  "real_line e = (fst (fst e) \<noteq> None)"

definition one_real :: "lineref \<times> bool \<Rightarrow> lineref \<times> bool \<Rightarrow> bool" where
  "one_real x y = (real_line x \<or> real_line y)"

definition balanced :: "int \<Rightarrow> (lineref \<times> bool) list \<Rightarrow> (lineref \<times> bool) list \<Rightarrow> bool" where
  "balanced p F T =
     (if 0 \<le> p then nat p \<le> length F \<and> list_all2 one_real (drop (nat p) F) T
      else nat (- p) \<le> length T \<and> list_all2 one_real F (drop (nat (- p)) T))"

definition numbers :: "(lineref \<times> bool) list \<Rightarrow> int list" where
  "numbers F = concat (map (\<lambda>e. case fst (fst e) of None \<Rightarrow> [] | Some n \<Rightarrow> [n]) F)"

definition nums :: "nat \<Rightarrow> nat \<Rightarrow> int list" where
  "nums n c = map int [Suc n..<Suc n + c]"

definition good :: "int \<Rightarrow> nat \<Rightarrow> nat \<Rightarrow> nat \<Rightarrow> nat \<Rightarrow> line_item list outcome \<Rightarrow> bool" where
  "good p nf nt cf ct r =
     (\<exists>items. r = Returns items \<and> balanced p (froms items) (tos items) \<and>
        numbers (froms items) = nums nf cf \<and> numbers (tos items) = nums nt ct)"

definition as_items :: "pair list \<Rightarrow> diff_item list" where
  "as_items pairs = map (\<lambda>(from_line, to_line, found_diff). AlignedPair from_line to_line found_diff) pairs"

section \<open>Lemmas on tab expansion\<close>

lemma expandtabs_col_no_tab:
  "tab_chr \<notin> set s \<Longrightarrow> expandtabs_col tabsize col s = s"
  by (induction s arbitrary: col) auto

lemma rstrip_no_trailing:
  "s = [] \<or> last s \<noteq> c \<Longrightarrow> rstrip c s = s"
  by (cases s rule: rev_cases) (auto simp: rstrip_def)

lemma str_replace_absent: "old \<notin> set s \<Longrightarrow> str_replace old new s = s"
  by (induction s) (auto simp: str_replace_def)

lemma str_replace_inverse:
  "new \<notin> set s \<Longrightarrow> str_replace new old (str_replace old new s) = s"
  by (induction s) (auto simp: str_replace_def)

lemma set_str_replace:
  "set (str_replace old new s) \<subseteq> insert new (set s - {old})"
  by (auto simp: str_replace_def)

lemma chr_distinct [simp]:
  "tab_chr \<noteq> nul_chr" "tab_chr \<noteq> space_chr" "tab_chr \<noteq> newline_chr"
  "nul_chr \<noteq> space_chr" "nul_chr \<noteq> newline_chr" "space_chr \<noteq> newline_chr"
  "nul_chr \<noteq> tab_chr" "space_chr \<noteq> tab_chr" "newline_chr \<noteq> tab_chr"
  "space_chr \<noteq> nul_chr" "newline_chr \<noteq> nul_chr" "newline_chr \<noteq> space_chr"
  "cr_chr \<noteq> tab_chr" "cr_chr \<noteq> space_chr" "cr_chr \<noteq> nul_chr" "cr_chr \<noteq> newline_chr"
  "tab_chr \<noteq> cr_chr" "space_chr \<noteq> cr_chr" "nul_chr \<noteq> cr_chr" "newline_chr \<noteq> cr_chr"
  by (simp_all add: tab_chr_def nul_chr_def space_chr_def newline_chr_def cr_chr_def)

lemma expand_tabs_plain:
  assumes "tab_chr \<notin> set line" "nul_chr \<notin> set line" "line = [] \<or> last line \<noteq> newline_chr"
  shows "expand_tabs tabSize line = line"
proof -
  let ?l1 = "str_replace space_chr nul_chr line"
  have t1: "tab_chr \<notin> set ?l1" using assms(1) set_str_replace[of space_chr nul_chr line] by auto
  have s1: "space_chr \<notin> set ?l1" using set_str_replace[of space_chr nul_chr line] by auto
  have e: "expandtabs tabSize ?l1 = ?l1" by (simp add: expandtabs_def expandtabs_col_no_tab t1)
  have r: "str_replace space_chr tab_chr ?l1 = ?l1" by (rule str_replace_absent[OF s1])
  have b: "str_replace nul_chr space_chr ?l1 = line" by (rule str_replace_inverse[OF assms(2)])
  show ?thesis by (simp add: expand_tabs_def Let_def e r b rstrip_no_trailing[OF assms(3)])
qed


lemma filter_expandtabs_col:
  "space_chr \<notin> set s \<Longrightarrow>
   filter kept (str_replace space_chr tab_chr (expandtabs_col tabsize col s)) = filter kept s"
  by (induction s arbitrary: col) (auto simp: str_replace_def kept_def Let_def)

lemma filter_rstrip: "filter kept (rstrip newline_chr s) = filter kept s"
proof -
  have "filter kept (rev (dropWhile (\<lambda>x. x = newline_chr) ys)) = filter kept (rev ys)" for ys
    by (induction ys) (auto simp: kept_def)
  from this[of "rev s"] show ?thesis by (simp add: rstrip_def)
qed

lemma filter_str_replace:
  "kept old \<Longrightarrow> kept new \<Longrightarrow> filter kept (str_replace old new s) = str_replace old new (filter kept s)"
  by (induction s) (auto simp: str_replace_def)

lemma expand_tabs_keeps:
  assumes "nul_chr \<notin> set line"
  shows "filter kept (expand_tabs tabSize line) = filter kept line"
proof -
  let ?l1 = "str_replace space_chr nul_chr line"
  have s1: "space_chr \<notin> set ?l1" using set_str_replace[of space_chr nul_chr line] by auto
  have k: "kept nul_chr" "kept space_chr" by (simp_all add: kept_def)
  have "filter kept (expand_tabs tabSize line)
        = filter kept (str_replace nul_chr space_chr (str_replace space_chr tab_chr (expandtabs tabSize ?l1)))"
    by (simp add: expand_tabs_def Let_def filter_rstrip)
  also have "\<dots> = str_replace nul_chr space_chr (filter kept (str_replace space_chr tab_chr (expandtabs tabSize ?l1)))"
    by (rule filter_str_replace) (simp_all add: k)
  also have "\<dots> = str_replace nul_chr space_chr (filter kept ?l1)"
    by (simp add: expandtabs_def filter_expandtabs_col[OF s1])
  also have "\<dots> = filter kept (str_replace nul_chr space_chr ?l1)"
    by (rule filter_str_replace[symmetric]) (simp_all add: k)
  also have "\<dots> = filter kept line" by (simp add: str_replace_inverse[OF assms])
  finally show ?thesis .
qed


section \<open>Lemmas on the renderer\<close>

lemma wrap_loop_total:
  "Separator \<notin> set ds \<Longrightarrow> \<exists>body. wrap_loop isLeft source ds = Inr body"
proof (induction ds)
  case Nil
  then show ?case by simp
next
  case (Cons d ds)
  then obtain body where b: "wrap_loop isLeft source ds = Inr body" by auto
  from Cons.prems obtain l r c where d: "d = AlignedPair l r c" by (cases d) auto
  show ?case by (simp add: d b split: sum.split)
qed

lemma wrap_loop_append:
  "wrap_loop isLeft source xs = Inr b1 \<Longrightarrow> wrap_loop isLeft source ys = Inr b2 \<Longrightarrow>
   wrap_loop isLeft source (xs @ ys) = Inr (b1 @ b2)"
proof (induction xs arbitrary: b1)
  case Nil
  then show ?case by simp
next
  case (Cons d xs)
  show ?case
  proof (cases d)
    case Separator
    with Cons.prems show ?thesis by simp
  next
    case (AlignedPair l r c)
    from Cons.prems(1) obtain b where b: "wrap_loop isLeft source xs = Inr b"
      by (auto simp: AlignedPair split: sum.splits)
    from Cons.IH[OF b Cons.prems(2)] Cons.prems(1) show ?thesis
      by (auto simp: AlignedPair b split: sum.splits)
  qed
qed

lemma wrap_loop_length:
  "wrap_loop isLeft source ds = Inr body \<Longrightarrow> length body = length (filter (renders isLeft source) ds)"
proof (induction ds arbitrary: body)
  case Nil
  then show ?case by simp
next
  case (Cons d ds)
  show ?case
  proof (cases d)
    case Separator
    with Cons.prems show ?thesis by simp
  next
    case (AlignedPair l r c)
    from Cons.prems obtain b where b: "wrap_loop isLeft source ds = Inr b"
      by (auto simp: AlignedPair split: sum.splits)
    from Cons.IH[OF b] Cons.prems show ?thesis
      by (auto simp: AlignedPair b split: sum.splits)
  qed
qed

lemma getDiffLineNos_length:
  "Separator \<notin> set ds \<Longrightarrow> \<exists>ms. getDiffLineNos isLeft ds = Inr ms \<and> length ms = length ds"
proof (induction ds)
  case Nil
  then show ?case by simp
next
  case (Cons d ds)
  then obtain ms where m: "getDiffLineNos isLeft ds = Inr ms" "length ms = length ds" by auto
  from Cons.prems obtain l r c where d: "d = AlignedPair l r c" by (cases d) auto
  show ?case by (simp add: d m)
qed

lemma wrap_pair_past_end_unchanged:
  assumes "(if isLeft then left else right) = (Some n, line)" "int (length source) < n"
  shows "wrap_pair isLeft source left right False = Inr (1, line)"
  using assms by (cases left; cases right) (auto simp: wrap_pair_def le_len_def split: if_splits)

lemma wrap_pair_past_end_changed:
  assumes "(if isLeft then left else right) = (Some n, line)" "int (length source) < n"
  shows "wrap_pair isLeft source left right True = Inl RuntimeError"
  using assms by (cases left; cases right) (auto simp: wrap_pair_def int_le_len_def isint_def split: if_splits option.splits)

lemma length_filter_all: "(length (filter P xs) = length xs) = list_all P xs"
proof (induction xs)
  case Nil
  show ?case by simp
next
  case (Cons x xs)
  have "length (filter P xs) \<noteq> Suc (length xs)"
    by (metis length_filter_le Suc_n_not_le_n)
  with Cons show ?case by auto
qed

lemma renders_associable:
  "renders isLeft source d = associable isLeft (length source) d"
proof (cases d)
  case Separator
  then show ?thesis by simp
next
  case (AlignedPair left right change)
  obtain ln lt where l: "left = (ln, lt)" by (cases left)
  obtain rn rt where r: "right = (rn, rt)" by (cases right)
  show ?thesis
    unfolding AlignedPair l r
    by (cases ln; cases rn; cases change; cases isLeft)
       (auto simp: wrap_pair_def isint_def int_le_len_def le_len_def lookup_def getitem_def
          spanned_def split: sum.splits if_splits prod.splits bool.splits)
qed

lemma filter_cong_all: "(\<And>x. P x = Q x) \<Longrightarrow> filter P xs = filter Q xs"
  by (induction xs) auto

lemma content_lines_wrap:
  "content_lines ([a] @ body @ [b]) = body"
  by (simp add: content_lines_def butlast_append)



section \<open>Claims on tab expansion\<close>

text \<open>
  C2, as the spec states it, fails: the spaces that \<open>expandtabs\<close> produces are turned
  back into tab characters, so \<open>"a\tb"\<close> does not come out with seven spaces, and a
  NUL character of the input comes out as a space.
\<close>

theorem expand_tabs_seven_spaces_counterexample:
  "expand_tabs 8 (''a'' @ [tab_chr] @ ''b'') \<noteq> ''a'' @ replicate 7 space_chr @ ''b'' \<and>
   expand_tabs 8 [nul_chr] \<noteq> [nul_chr]"
  by (simp add: expand_tabs_def expandtabs_def str_replace_def rstrip_def Let_def tab_chr_def
      nul_chr_def space_chr_def newline_chr_def cr_chr_def eval_nat_numeral)

text \<open>
  C2 (amended): at tab width 8 the line \<open>"a\tb"\<close> becomes \<open>a\<close>, seven tab
  characters, \<open>b\<close>; a line free of tab characters, of NUL characters and of a trailing
  newline is returned unchanged, at every tab width; and for a line free of NUL
  characters the characters other than tabs and newlines, the spaces among them, come
  out in the same order, each exactly once.
\<close>

theorem expand_tabs_behaviour:
  "expand_tabs 8 (''a'' @ [tab_chr] @ ''b'') = ''a'' @ replicate 7 tab_chr @ ''b'' \<and>
   (tab_chr \<notin> set line \<and> nul_chr \<notin> set line \<and> (line = [] \<or> last line \<noteq> newline_chr) \<longrightarrow>
      expand_tabs tabSize line = line) \<and>
   (nul_chr \<notin> set line \<longrightarrow> filter kept (expand_tabs tabSize line) = filter kept line)"
proof -
  have "expand_tabs 8 (''a'' @ [tab_chr] @ ''b'') = ''a'' @ replicate 7 tab_chr @ ''b''"
    by (simp add: expand_tabs_def expandtabs_def str_replace_def rstrip_def Let_def tab_chr_def
        nul_chr_def space_chr_def newline_chr_def cr_chr_def eval_nat_numeral)
  then show ?thesis
    using expand_tabs_plain[of line tabSize] expand_tabs_keeps[of line tabSize] by blast
qed

theorem expand_tabs_behaviour_witness:
  "tab_chr \<notin> set ''x y'' \<and> nul_chr \<notin> set ''x y'' \<and> last ''x y'' \<noteq> newline_chr \<and>
   expand_tabs 4 ''x y'' = ''x y'' \<and> filter kept (expand_tabs 4 ''x y'') = filter kept ''x y''"
proof -
  have h: "tab_chr \<notin> set ''x y'' \<and> nul_chr \<notin> set ''x y'' \<and> last ''x y'' \<noteq> newline_chr"
    by (simp add: tab_chr_def nul_chr_def newline_chr_def)
  with expand_tabs_behaviour[of "''x y''" 4] show ?thesis by blast
qed

section \<open>Claims on the renderer\<close>

text \<open>
  C3, as the spec states it, fails: a changed pair whose line number for the rendered
  side points past the end of the highlighted lines is skipped; its raw text is not
  emitted.
\<close>

theorem wrap_code_changed_past_end_counterexample:
  "wrap_code True [AlignedPair (Some 1, ''old'') (Some 1, ''new'') True] [] =
     Inr [(0, ''<pre>''), (0, newline_chr # ''</pre>'')]"
  by (simp add: wrap_code_def wrap_pair_def isint_def int_le_len_def)

text \<open>
  C3 (amended): in a sequence of aligned pairs, for a pair whose line number on the
  rendered side is an int past the end of the highlighted lines, \<open>_wrap_code\<close> emits,
  between the output of the pairs before it and the output of the pairs after it, the
  raw line text of that side when the pair is unchanged, and nothing when the pair is
  changed; the render does not fail.
\<close>

theorem wrap_code_past_end:
  assumes "Separator \<notin> set (ds1 @ ds2)"
    and "(if isLeft then left else right) = (Some n, line)"
    and "int (length source) < n"
  shows "\<exists>b1 b2. wrap_loop isLeft source ds1 = Inr b1 \<and> wrap_loop isLeft source ds2 = Inr b2 \<and>
           wrap_code isLeft (ds1 @ AlignedPair left right change # ds2) source =
             Inr ([(0, ''<pre>'')] @ b1 @ (if change then [] else [(1, line)]) @ b2 @
                  [(0, newline_chr # ''</pre>'')])"
proof -
  from assms(1) obtain b1 where b1: "wrap_loop isLeft source ds1 = Inr b1"
    using wrap_loop_total[of ds1 isLeft source] by auto
  from assms(1) obtain b2 where b2: "wrap_loop isLeft source ds2 = Inr b2"
    using wrap_loop_total[of ds2 isLeft source] by auto
  have p: "wrap_loop isLeft source (AlignedPair left right change # ds2) =
           Inr ((if change then [] else [(1, line)]) @ b2)"
    using wrap_pair_past_end_unchanged[OF assms(2,3)] wrap_pair_past_end_changed[OF assms(2,3)]
    by (cases change) (simp_all add: b2)
  from wrap_loop_append[OF b1 p] b1 b2 show ?thesis by (simp add: wrap_code_def)
qed

theorem wrap_code_past_end_witness:
  "Separator \<notin> set ([] @ []) \<and>
   (if True then (Some 2, ''raw'') else (Some 2, ''raw'')) = (Some (2::int), ''raw'') \<and>
   int (length [(1::int, ''hl'')]) < 2 \<and>
   wrap_code True [AlignedPair (Some 2, ''raw'') (Some 2, ''raw'') False] [(1, ''hl'')] =
     Inr [(0, ''<pre>''), (1, ''raw''), (0, newline_chr # ''</pre>'')]"
proof -
  have h1: "Separator \<notin> set ([] @ [])" by simp
  have h2: "(if True then (Some 2, ''raw'') else (Some 2, ''raw'')) = (Some (2::int), ''raw'')"
    by simp
  have h3: "int (length [(1::int, ''hl'')]) < 2" by simp
  from wrap_code_past_end[OF h1 h2 h3, of False]
  show ?thesis by auto
qed



text \<open>
  C5, as the spec states it, fails: a pair that \<open>_wrap_code\<close> skips still gets its
  line-number marker, so the marker column is longer than the content column.
\<close>

theorem line_numbers_longer_counterexample:
  "getDiffLineNos False [AlignedPair (None, [newline_chr]) (Some 2, ''b'') True] =
     Inr [Some (span ''lineno_q lineno_rightadd'' ''2'')] \<and>
   wrap_code False [AlignedPair (None, [newline_chr]) (Some 2, ''b'') True] [(1, ''a'')] =
     Inr [(0, ''<pre>''), (0, newline_chr # ''</pre>'')]"
  by (simp add: wrap_code_def wrap_pair_def isint_def int_le_len_def lineno_marker_def
      str_no_def str_int_def str_nat.simps)

text \<open>
  C5 (amended): for a sequence of aligned pairs, \<open>getDiffLineNos\<close> produces one marker
  per pair, and \<open>_wrap_code\<close> emits one content line for each pair that passes its
  guards (\<open>associable\<close>: a line number on the rendered side within the highlighted
  lines, or past their end on an unchanged pair, or a changed pair that has a line number
  on the other side only).  The two columns of a pane have equal length exactly when every
  pair of the sequence is of this kind; in particular when every line number of the
  rendered side lies in \<open>1..len(source)\<close>.
\<close>

theorem line_numbers_and_content_lines:
  assumes "Separator \<notin> set ds"
  shows "\<exists>ms out. getDiffLineNos isLeft ds = Inr ms \<and> wrap_code isLeft ds source = Inr out \<and>
           length ms = length ds \<and>
           length (content_lines out) = length (filter (associable isLeft (length source)) ds) \<and>
           (length (content_lines out) = length ms \<longleftrightarrow>
              list_all (associable isLeft (length source)) ds)"
proof -
  from getDiffLineNos_length[OF assms] obtain ms where
    m: "getDiffLineNos isLeft ds = Inr ms" "length ms = length ds" by blast
  from wrap_loop_total[OF assms] obtain body where b: "wrap_loop isLeft source ds = Inr body"
    by blast
  have w: "wrap_code isLeft ds source =
           Inr ([(0, ''<pre>'')] @ body @ [(0, newline_chr # ''</pre>'')])"
    by (simp add: wrap_code_def b)
  have f: "filter (renders isLeft source) ds = filter (associable isLeft (length source)) ds"
    by (rule filter_cong_all) (rule renders_associable)
  have l: "length body = length (filter (associable isLeft (length source)) ds)"
    using wrap_loop_length[OF b] by (simp only: f)
  have c: "length (content_lines ([(0, ''<pre>'')] @ body @ [(0, newline_chr # ''</pre>'')])) =
           length body"
    by (simp only: content_lines_wrap)
  have e: "(length (filter (associable isLeft (length source)) ds) = length ds) =
           list_all (associable isLeft (length source)) ds"
    by (rule length_filter_all)
  from m w l c e show ?thesis by (simp del: append.simps)
qed

theorem line_numbers_and_content_lines_witness:
  "Separator \<notin> set [AlignedPair (Some 1, ''a'') (Some 1, ''a'') False,
                      AlignedPair (None, [newline_chr]) (Some 2, ''b'') True] \<and>
   list_all (associable True (length [(1::int, ''A'')]))
     [AlignedPair (Some 1, ''a'') (Some 1, ''a'') False,
      AlignedPair (None, [newline_chr]) (Some 2, ''b'') True] \<and>
   (\<exists>ms out. getDiffLineNos True [AlignedPair (Some 1, ''a'') (Some 1, ''a'') False,
                 AlignedPair (None, [newline_chr]) (Some 2, ''b'') True] = Inr ms \<and>
      wrap_code True [AlignedPair (Some 1, ''a'') (Some 1, ''a'') False,
                 AlignedPair (None, [newline_chr]) (Some 2, ''b'') True] [(1, ''A'')] = Inr out \<and>
      length ms = 2 \<and> length (content_lines out) = 2)"
proof -
  let ?ds = "[AlignedPair (Some 1, ''a'') (Some 1, ''a'') False,
              AlignedPair (None, [newline_chr]) (Some 2, ''b'') True]"
  have h: "Separator \<notin> set ?ds" by simp
  have r: "list_all (associable True (length [(1::int, ''A'')])) ?ds" by simp
  from line_numbers_and_content_lines[OF h, of True "[(1, ''A'')]"] r h
  show ?thesis by auto
qed

section \<open>Lemmas on \<open>CodeDiff\<close>\<close>

lemma chr_simps:
  "tab_chr = CHR 0x09" "newline_chr = CHR 0x0A" "cr_chr = CHR 0x0D" "nul_chr = CHR 0x00"
  "space_chr = CHR 0x20" "soh_chr = CHR 0x01"
  by (simp_all add: tab_chr_def newline_chr_def cr_chr_def nul_chr_def space_chr_def soh_chr_def)

lemma mdiff_insert_ab:
  "mdiff [] [''a'', ''b''] None None (Some IS_CHARACTER_JUNK) =
     Returns [AlignedPair (None, [newline_chr]) (Some 1, [nul_chr] @ ''+a'' @ [soh_chr]) True,
              AlignedPair (None, [newline_chr]) (Some 2, [nul_chr] @ ''+b'' @ [soh_chr]) True]"
  by code_simp

lemma mdiff_delete_ab:
  "mdiff [''a'', ''b''] [] None None (Some IS_CHARACTER_JUNK) =
     Returns [AlignedPair (Some 1, [nul_chr] @ ''-a'' @ [soh_chr]) (None, [newline_chr]) True,
              AlignedPair (Some 2, [nul_chr] @ ''-b'' @ [soh_chr]) (None, [newline_chr]) True]"
  by code_simp

lemma expand_tabs_ab: "expand_tabs tabSize ''a'' = ''a''" "expand_tabs tabSize ''b'' = ''b''"
  by (rule expand_tabs_plain; simp add: chr_simps)+

lemma universal_newlines_id: "cr_chr \<notin> set s \<Longrightarrow> universal_newlines s = s"
  by (induction s rule: universal_newlines.induct) auto

lemma split_acc_keepends:
  "s \<noteq> [] \<Longrightarrow> last s = newline_chr \<Longrightarrow>
   map (\<lambda>n. n @ [newline_chr]) (split_acc cur s) = keepends cur s @ [[newline_chr]]"
proof (induction s arbitrary: cur)
  case Nil
  then show ?case by simp
next
  case (Cons c s)
  show ?case
  proof (cases "s = []")
    case True
    with Cons.prems show ?thesis by simp
  next
    case False
    with Cons.prems have "last s = newline_chr" by simp
    from Cons.IH[OF False this] show ?thesis by simp
  qed
qed

lemma concat_split_acc:
  "concat (map (\<lambda>n. n @ [newline_chr]) (split_acc cur s)) = cur @ s @ [newline_chr]"
  by (induction s arbitrary: cur) auto

lemma text_lines_readlines:
  assumes "cr_chr \<notin> set blob" "blob \<noteq> []" "last blob = newline_chr"
  shows "text_lines blob = readlines blob @ [[newline_chr]]"
  using split_acc_keepends[OF assms(2,3), of "[]"]
  by (simp add: text_lines_def readlines_def split_newline_def universal_newlines_id[OF assms(1)])

lemma concat_text_lines: "concat (text_lines blob) = blob @ [newline_chr]"
  using concat_split_acc[of "[]" blob] by (simp add: text_lines_def split_newline_def)

lemma route_file:
  "aligned_sequence (init (\<lambda>p. Some [CHR ''a'', newline_chr]) ''old'' ''new'' None None None) =
     Returns [AlignedPair (Some 1, ''a'') (Some 1, ''a'') False]"
  by code_simp

lemma route_text:
  "aligned_sequence (init (\<lambda>p. None) ''old'' ''new''
       (Some [CHR ''a'', newline_chr]) (Some [CHR ''a'', newline_chr]) None) =
     Returns [AlignedPair (Some 1, ''a'') (Some 1, ''a'') False,
              AlignedPair (Some 2, []) (Some 2, []) False]"
  by code_simp

lemma getDiffDetails_frame:
  assumes "getDiffDetails self context numlines tabSize = Returns (self', ds)"
  shows "leftcode self' = leftcode self \<and> rightcode self' = rightcode self \<and>
         filename self' = filename self \<and> fromfile self' = fromfile self \<and> tofile self' = tofile self \<and>
         fromlines self' = map (expand_tabs tabSize) (fromlines self) \<and>
         tolines self' = map (expand_tabs tabSize) (tolines self)"
  using assms by (auto simp: getDiffDetails_def Let_def obind_def split: outcome.splits)

section \<open>Claims on \<open>CodeDiff\<close>\<close>

text \<open>
  C8: diffing the empty sequence against \<open>["a", "b"]\<close> yields exactly two pairs, both
  changed, both without a left line number, with right line numbers 1 and 2 in that
  order; diffing \<open>["a", "b"]\<close> against the empty sequence yields the mirror image.
  (The text of the inserted or deleted line carries the markers \<open>\0+\<close>, \<open>\0-\<close>
  and \<open>\1\<close> of \<open>difflib\<close>.)
\<close>

theorem pure_insertion_and_deletion:
  "getDiffDetails (self\<lparr>fromlines := [], tolines := [''a'', ''b'']\<rparr>) False numlines tabSize =
     Returns (self\<lparr>fromlines := [], tolines := [''a'', ''b'']\<rparr>,
       [AlignedPair (None, [newline_chr]) (Some 1, [nul_chr] @ ''+a'' @ [soh_chr]) True,
        AlignedPair (None, [newline_chr]) (Some 2, [nul_chr] @ ''+b'' @ [soh_chr]) True]) \<and>
   getDiffDetails (self\<lparr>fromlines := [''a'', ''b''], tolines := []\<rparr>) False numlines tabSize =
     Returns (self\<lparr>fromlines := [''a'', ''b''], tolines := []\<rparr>,
       [AlignedPair (Some 1, [nul_chr] @ ''-a'' @ [soh_chr]) (None, [newline_chr]) True,
        AlignedPair (Some 2, [nul_chr] @ ''-b'' @ [soh_chr]) (None, [newline_chr]) True])"
  by (simp add: getDiffDetails_def Let_def expand_tabs_ab mdiff_insert_ab mdiff_delete_ab obind_def
      del: append.simps)

text \<open>
  C9: for a \<open>CodeDiff\<close> built by the constructor, the text that \<open>format\<close> hands
  to the highlighter is, for each pane, the concatenation of the lines captured at
  construction; \<open>getDiffDetails\<close> replaces \<open>fromlines\<close> and \<open>tolines\<close> by
  the tab-expanded lines and leaves \<open>leftcode\<close> and \<open>rightcode\<close> as they were.
\<close>

theorem format_highlights_original_text:
  assumes "init files ff tf fromtxt totxt name = Returns self"
    and "format highlight self = Returns (self', ds, codeContents)"
  shows "\<exists>fl tl. input_lines files ff fromtxt = Returns fl \<and> input_lines files tf totxt = Returns tl \<and>
           getDiffDetails self False 5 8 = Returns (self', ds) \<and>
           codeContents = [highlight name (concat fl) True ds, highlight name (concat tl) False ds] \<and>
           leftcode self' = concat fl \<and> rightcode self' = concat tl \<and>
           fromlines self' = map (expand_tabs 8) fl \<and> tolines self' = map (expand_tabs 8) tl"
proof -
  from assms(1) obtain fl tl where i: "input_lines files ff fromtxt = Returns fl"
    "input_lines files tf totxt = Returns tl"
    and s: "self = \<lparr>filename = name, fromfile = ff, tofile = tf, fromlines = fl, tolines = tl,
                 leftcode = concat fl, rightcode = concat tl\<rparr>"
    by (auto simp: init_def obind_def split: outcome.splits)
  from assms(2) have g: "getDiffDetails self False 5 8 = Returns (self', ds)"
    and c: "codeContents = [highlight (filename self') (leftcode self') True ds,
                            highlight (filename self') (rightcode self') False ds]"
    by (auto simp: format_def obind_def Let_def split: outcome.splits)
  from getDiffDetails_frame[OF g] s i g c show ?thesis by simp
qed

theorem format_highlights_original_text_witness:
  "init (\<lambda>p. None) ''old.py'' ''new.py'' (Some [CHR ''x'', tab_chr, CHR ''y''])
      (Some [CHR ''x'', tab_chr, CHR ''z'']) (Some ''new.py'') =
     Returns \<lparr>filename = Some ''new.py'', fromfile = ''old.py'', tofile = ''new.py'',
       fromlines = [[CHR ''x'', tab_chr, CHR ''y'', newline_chr]],
       tolines = [[CHR ''x'', tab_chr, CHR ''z'', newline_chr]],
       leftcode = [CHR ''x'', tab_chr, CHR ''y'', newline_chr],
       rightcode = [CHR ''x'', tab_chr, CHR ''z'', newline_chr]\<rparr> \<and>
   (\<exists>self' ds.
      format (\<lambda>n code isLeft ds. code)
        \<lparr>filename = Some ''new.py'', fromfile = ''old.py'', tofile = ''new.py'',
          fromlines = [[CHR ''x'', tab_chr, CHR ''y'', newline_chr]],
          tolines = [[CHR ''x'', tab_chr, CHR ''z'', newline_chr]],
          leftcode = [CHR ''x'', tab_chr, CHR ''y'', newline_chr],
          rightcode = [CHR ''x'', tab_chr, CHR ''z'', newline_chr]\<rparr> =
        Returns (self', ds, [[CHR ''x'', tab_chr, CHR ''y'', newline_chr],
                             [CHR ''x'', tab_chr, CHR ''z'', newline_chr]]) \<and>
      leftcode self' = [CHR ''x'', tab_chr, CHR ''y'', newline_chr] \<and>
      fromlines self' = [CHR ''x'' # replicate 7 tab_chr @ ''y''])"
proof -
  let ?self = "\<lparr>filename = Some ''new.py'', fromfile = ''old.py'', tofile = ''new.py'',
       fromlines = [[CHR ''x'', tab_chr, CHR ''y'', newline_chr]],
       tolines = [[CHR ''x'', tab_chr, CHR ''z'', newline_chr]],
       leftcode = [CHR ''x'', tab_chr, CHR ''y'', newline_chr],
       rightcode = [CHR ''x'', tab_chr, CHR ''z'', newline_chr]\<rparr>"
  let ?self' = "?self\<lparr>fromlines := [CHR ''x'' # replicate 7 tab_chr @ ''y''],
       tolines := [CHR ''x'' # replicate 7 tab_chr @ ''z'']\<rparr>"
  let ?ds = "[AlignedPair
       (Some 1, CHR ''x'' # replicate 7 tab_chr @ [nul_chr, CHR ''^'', CHR ''y'', soh_chr])
       (Some 1, CHR ''x'' # replicate 7 tab_chr @ [nul_chr, CHR ''^'', CHR ''z'', soh_chr]) True]"
  have h1: "init (\<lambda>p. None) ''old.py'' ''new.py'' (Some [CHR ''x'', tab_chr, CHR ''y''])
      (Some [CHR ''x'', tab_chr, CHR ''z'']) (Some ''new.py'') = Returns ?self"
    by code_simp
  have h2: "format (\<lambda>n code isLeft ds. code) ?self =
      Returns (?self', ?ds, [[CHR ''x'', tab_chr, CHR ''y'', newline_chr],
                             [CHR ''x'', tab_chr, CHR ''z'', newline_chr]])"
    by code_simp
  from format_highlights_original_text[OF h1 h2] h1 h2 show ?thesis by auto
qed

text \<open>
  C10, as stated, fails for a blob that contains a carriage return: the file is read
  with universal newlines, so \<open>"a\rb\n"\<close> gives two lines on both routes and the
  text route has no line more than the file route.
\<close>

theorem text_route_carriage_return_counterexample:
  "text_lines [CHR ''a'', cr_chr, CHR ''b'', newline_chr] =
     [[CHR ''a'', cr_chr, CHR ''b'', newline_chr], [newline_chr]] \<and>
   readlines [CHR ''a'', cr_chr, CHR ''b'', newline_chr] =
     [[CHR ''a'', newline_chr], [CHR ''b'', newline_chr]]"
  by (simp add: text_lines_def readlines_def split_newline_def chr_simps)

text \<open>
  C10 (amended): the text route builds \<open>[n + "\n" for n in txt.split("\n")]\<close>, so
  the lines joined together are the blob with one more newline; for every blob that
  ends in a newline and contains no carriage return, the constructor produces the lines
  that \<open>readlines\<close> gives for a file of the same content, followed by one more
  line that is only \<open>"\n"\<close>; and the two routes can yield different aligned
  sequences for the same content (\<open>"a\n"\<close> on both sides: one pair from files, two
  pairs from text).
\<close>

theorem text_route_extra_line:
  "(cr_chr \<notin> set blob \<and> blob \<noteq> [] \<and> last blob = newline_chr \<longrightarrow>
      text_lines blob = readlines blob @ [[newline_chr]]) \<and>
   concat (text_lines blob) = blob @ [newline_chr] \<and>
   aligned_sequence (init (\<lambda>p. Some [CHR ''a'', newline_chr]) ''old'' ''new'' None None None) \<noteq>
   aligned_sequence (init (\<lambda>p. None) ''old'' ''new''
       (Some [CHR ''a'', newline_chr]) (Some [CHR ''a'', newline_chr]) None)"
  using text_lines_readlines[of blob] concat_text_lines[of blob]
  by (simp add: route_file route_text)

theorem text_route_extra_line_witness:
  "cr_chr \<notin> set [CHR ''a'', newline_chr] \<and> [CHR ''a'', newline_chr] \<noteq> [] \<and>
   last [CHR ''a'', newline_chr] = newline_chr \<and>
   text_lines [CHR ''a'', newline_chr] = readlines [CHR ''a'', newline_chr] @ [[newline_chr]]"
proof -
  have h: "cr_chr \<notin> set [CHR ''a'', newline_chr] \<and> [CHR ''a'', newline_chr] \<noteq> [] \<and>
           last [CHR ''a'', newline_chr] = newline_chr"
    by (simp add: chr_simps)
  with text_route_extra_line[of "[CHR ''a'', newline_chr]"] show ?thesis by blast
qed

section \<open>Lemmas on \<open>difflib\<close>\<close>

subsection \<open>The matching blocks tile both sequences\<close>

declare mb_loop.simps [simp del]

lemma region_ok_simp: "region_ok (alo, ahi, blo, bhi) = (alo \<le> ahi \<and> blo \<le> bhi)"
  by (simp add: region_ok_def)

lemma region_chain_simp: "region_chain (alo, ahi, blo, bhi) c = chain_to alo blo c ahi bhi"
  by (simp add: region_chain_def)

lemma chain_to_append:
  "chain_to i j c1 i' j' \<Longrightarrow> chain_to i' j' c2 ahi bhi \<Longrightarrow> chain_to i j (c1 @ c2) ahi bhi"
proof (induction c1 arbitrary: i j)
  case Nil
  then show ?case by (cases c2) auto
next
  case (Cons x c1)
  then show ?case by (cases x) auto
qed

lemma chain_to_weaken:
  "chain_to i j c ahi bhi \<Longrightarrow> i0 \<le> i \<Longrightarrow> j0 \<le> j \<Longrightarrow> ahi \<le> ahi' \<Longrightarrow> bhi \<le> bhi' \<Longrightarrow>
   chain_to i0 j0 c ahi' bhi'"
proof (induction c arbitrary: i j i0 j0)
  case Nil
  then show ?case by auto
next
  case (Cons x c)
  obtain ai bj sz where x: "x = (ai, bj, sz)" by (cases x)
  from Cons.prems have "chain_to (ai + sz) (bj + sz) c ahi bhi" by (simp add: x)
  from Cons.IH[OF this le_refl le_refl Cons.prems(4,5)] Cons.prems show ?case by (simp add: x)
qed

lemma mb_loop_mset:
  "list_all region_ok queue \<Longrightarrow>
   \<exists>cs. list_all2 region_chain queue cs \<and>
        mset (mb_loop isjunk a b queue acc) = mset acc + mset (concat cs)"
proof (induction isjunk a b queue acc rule: mb_loop.induct)
  case (1 isjunk a b acc)
  show ?case by (simp add: mb_loop.simps)
next
  case (2 isjunk a b alo ahi blo bhi queue acc)
  obtain i j k where f: "find_longest_match isjunk a b alo ahi blo bhi = (i, j, k)"
    by (cases "find_longest_match isjunk a b alo ahi blo bhi")
  from "2.prems" have ok: "alo \<le> ahi" "blo \<le> bhi" by (simp_all add: region_ok_simp)
  from "2.prems" have okq: "list_all region_ok queue" by simp
  show ?case
  proof (cases "k = 0")
    case True
    have "\<exists>cs. list_all2 region_chain queue cs \<and>
            mset (mb_loop isjunk a b queue acc) = mset acc + mset (concat cs)"
      by (rule "2.IH"(2)[of i "(j, k)" j k]) (simp_all add: f True okq)
    then obtain cs where cs: "list_all2 region_chain queue cs"
      "mset (mb_loop isjunk a b queue acc) = mset acc + mset (concat cs)" by blast
    have r: "region_chain (alo, ahi, blo, bhi) []" using ok by (simp add: region_chain_simp)
    have m: "mb_loop isjunk a b ((alo, ahi, blo, bhi) # queue) acc = mb_loop isjunk a b queue acc"
      by (simp add: mb_loop.simps f True)
    show ?thesis
      by (rule exI[of _ "[] # cs"]) (simp add: r cs m)
  next
    case False
    then have kpos: "0 < k" by simp
    from find_longest_match_bounds[OF f kpos]
    have b: "alo \<le> i" "i + k \<le> ahi" "blo \<le> j" "j + k \<le> bhi" by simp_all
    define qR where "qR = (if i + k < ahi \<and> j + k < bhi then [(i + k, ahi, j + k, bhi)] else [])"
    define qL where "qL = (if alo < i \<and> blo < j then [(alo, i, blo, j)] else [])"
    have okn: "list_all region_ok (qR @ qL @ queue)"
      using okq by (simp add: qR_def qL_def region_ok_simp)
    have "\<exists>cs. list_all2 region_chain (qR @ qL @ queue) cs \<and>
            mset (mb_loop isjunk a b (qR @ qL @ queue) (acc @ [(i, j, k)])) =
            mset (acc @ [(i, j, k)]) + mset (concat cs)"
      unfolding qR_def qL_def
      by (rule "2.IH"(1)[of i "(j, k)" j k]) (use okq False in \<open>auto simp: f region_ok_simp\<close>)
    then obtain cs where cs: "list_all2 region_chain (qR @ qL @ queue) cs"
      and ms: "mset (mb_loop isjunk a b (qR @ qL @ queue) (acc @ [(i, j, k)])) =
               mset (acc @ [(i, j, k)]) + mset (concat cs)" by blast
    from cs obtain csR cs1 where c1: "cs = csR @ cs1" "list_all2 region_chain qR csR"
      "list_all2 region_chain (qL @ queue) cs1"
      by (auto simp: list_all2_append1)
    from c1(3) obtain csL csq where c2: "cs1 = csL @ csq" "list_all2 region_chain qL csL"
      "list_all2 region_chain queue csq"
      by (auto simp: list_all2_append1)
    have cR: "chain_to (i + k) (j + k) (concat csR) ahi bhi"
      using c1(2) b by (auto simp: qR_def region_chain_simp list_all2_Cons1 split: if_splits)
    have cL: "chain_to alo blo (concat csL) i j"
      using c2(2) b by (auto simp: qL_def region_chain_simp list_all2_Cons1 split: if_splits)
    have "chain_to i j ((i, j, k) # concat csR) ahi bhi" using cR kpos by simp
    from chain_to_append[OF cL this]
    have r: "region_chain (alo, ahi, blo, bhi) (concat csL @ (i, j, k) # concat csR)"
      by (simp add: region_chain_simp)
    have m: "mb_loop isjunk a b ((alo, ahi, blo, bhi) # queue) acc =
             mb_loop isjunk a b (qR @ qL @ queue) (acc @ [(i, j, k)])"
      using False by (simp add: mb_loop.simps f qR_def qL_def)
    show ?thesis
      by (rule exI[of _ "(concat csL @ (i, j, k) # concat csR) # csq"])
         (simp add: r c2(3) m ms c1(1) c2(1))
  qed
qed

lemma chain_to_sorted:
  "chain_to i j c ahi bhi \<Longrightarrow> sorted c \<and> (\<forall>m \<in> set c. (i, j, 0) \<le> m)"
proof (induction c arbitrary: i j)
  case Nil
  show ?case by simp
next
  case (Cons x c)
  obtain ai bj sz where x: "x = (ai, bj, sz)" by (cases x)
  from Cons.prems have p: "i \<le> ai" "j \<le> bj" "0 < sz" "chain_to (ai + sz) (bj + sz) c ahi bhi"
    by (simp_all add: x)
  from Cons.IH[OF p(4)] have s: "sorted c" and g: "\<forall>m \<in> set c. (ai + sz, bj + sz, 0) \<le> m"
    by simp_all
  have "(ai, bj, sz) \<le> m" if "m \<in> set c" for m
  proof -
    from g that have "(ai + sz, bj + sz, 0) \<le> m" by simp
    moreover have "(ai, bj, sz) \<le> (ai + sz, bj + sz, 0::nat)" using p(3) by (simp add: less_eq_prod_def)
    ultimately show ?thesis by (rule order_trans[rotated])
  qed
  moreover have "(i, j, 0) \<le> m" if "m \<in> set (x # c)" for m
  proof -
    have a: "(i, j, 0::nat) \<le> (ai, bj, sz)" using p(1,2) by (auto simp: less_eq_prod_def)
    from that consider "m = (ai, bj, sz)" | "m \<in> set c" by (auto simp: x)
    then show ?thesis
    proof cases
      case 1
      with a show ?thesis by simp
    next
      case 2
      with \<open>\<And>m. m \<in> set c \<Longrightarrow> (ai, bj, sz) \<le> m\<close> have "(ai, bj, sz) \<le> m" by simp
      with a show ?thesis by (rule order_trans)
    qed
  qed
  ultimately show ?case using s by (auto simp: x)
qed

lemma sorted_mb_loop:
  "\<exists>c. chain_to 0 0 c (length a) (length b) \<and>
       sort (mb_loop isjunk a b [(0, length a, 0, length b)] []) = c"
proof -
  have "list_all region_ok [(0, length a, 0, length b)]" by (simp add: region_ok_simp)
  from mb_loop_mset[OF this, of isjunk a b "[]"] obtain cs where
    cs: "list_all2 region_chain [(0, length a, 0, length b)] cs"
    and ms: "mset (mb_loop isjunk a b [(0, length a, 0, length b)] []) = mset [] + mset (concat cs)"
    by blast
  from cs obtain c where c: "cs = [c]" "chain_to 0 0 c (length a) (length b)"
    by (auto simp: list_all2_Cons1 region_chain_simp)
  from chain_to_sorted[OF c(2)] have "sorted c" by simp
  moreover from ms c(1) have "mset c = mset (mb_loop isjunk a b [(0, length a, 0, length b)] [])"
    by simp
  ultimately have "sort (mb_loop isjunk a b [(0, length a, 0, length b)] []) = c"
    by (rule properties_for_sort[rotated])
  with c(2) show ?thesis by blast
qed

lemma collapse_tiles:
  "chain_to (i1 + k1) (j1 + k1) c la lb \<Longrightarrow> i0 \<le> i1 \<Longrightarrow> j0 \<le> j1 \<Longrightarrow>
   tiles i0 j0 (collapse (i1, j1, k1) c @ [(la, lb, 0)]) la lb"
proof (induction c arbitrary: i0 j0 i1 j1 k1)
  case Nil
  then show ?case by auto
next
  case (Cons x c)
  obtain i2 j2 k2 where x: "x = (i2, j2, k2)" by (cases x)
  from Cons.prems(1) have p: "i1 + k1 \<le> i2" "j1 + k1 \<le> j2" "0 < k2"
    "chain_to (i2 + k2) (j2 + k2) c la lb" by (simp_all add: x)
  show ?case
  proof (cases "i1 + k1 = i2 \<and> j1 + k1 = j2")
    case True
    then have e: "i1 + (k1 + k2) = i2 + k2" "j1 + (k1 + k2) = j2 + k2" by simp_all
    have "chain_to (i1 + (k1 + k2)) (j1 + (k1 + k2)) c la lb" by (simp only: e p(4))
    from Cons.IH[OF this Cons.prems(2,3)] True show ?thesis by (simp add: x)
  next
    case False
    show ?thesis
    proof (cases "k1 = 0")
      case True
      have "i0 \<le> i2" "j0 \<le> j2" using p(1,2) Cons.prems(2,3) by simp_all
      from Cons.IH[OF p(4) this] False True show ?thesis by (auto simp: x)
    next
      case nz: False
      from Cons.IH[OF p(4) p(1,2)] False nz Cons.prems(2,3) show ?thesis by (auto simp: x)
    qed
  qed
qed

lemma get_matching_blocks_tiles:
  "tiles 0 0 (get_matching_blocks isjunk a b) (length a) (length b)"
proof -
  from sorted_mb_loop[of a b isjunk] obtain c where
    c: "chain_to 0 0 c (length a) (length b)"
       "sort (mb_loop isjunk a b [(0, length a, 0, length b)] []) = c" by blast
  from c(1) have "chain_to (0 + 0) (0 + 0) c (length a) (length b)" by simp
  from collapse_tiles[OF this le_refl le_refl] show ?thesis
    by (simp add: get_matching_blocks_def Let_def c(2))
qed

subsection \<open>The delta of \<open>Differ.compare\<close>\<close>

lemma count_simps [simp]:
  "from_count [] = 0" "to_count [] = 0"
  "from_count (L1 @ L2) = from_count L1 + from_count L2"
  "to_count (L1 @ L2) = to_count L1 + to_count L2"
  "from_count ((CHR ''-'' # r) # L) = Suc (from_count L)"
  "from_count ((CHR '' '' # r) # L) = Suc (from_count L)"
  "from_count ((CHR ''+'' # r) # L) = from_count L"
  "from_count ((CHR ''?'' # r) # L) = from_count L"
  "to_count ((CHR ''+'' # r) # L) = Suc (to_count L)"
  "to_count ((CHR '' '' # r) # L) = Suc (to_count L)"
  "to_count ((CHR ''-'' # r) # L) = to_count L"
  "to_count ((CHR ''?'' # r) # L) = to_count L"
  by (simp_all add: from_count_def to_count_def)

lemma delta_append: "delta L1 \<Longrightarrow> delta L2 \<Longrightarrow> delta (L1 @ L2)"
  by (induction L1 rule: delta.induct) (auto intro: delta.intros)

lemma dump_Nil [simp]: "hi \<le> lo \<Longrightarrow> dump tag x lo hi = []"
  by (simp add: dump_def)

lemma dump_Cons: "lo < hi \<Longrightarrow> dump tag x lo hi = (tag # space_chr # x ! lo) # dump tag x (Suc lo) hi"
  by (simp add: dump_def upt_conv_Cons)

lemma dump_delta:
  "tag = CHR ''-'' \<or> tag = CHR ''+'' \<or> tag = CHR '' '' \<Longrightarrow> delta (dump tag x lo hi)"
proof (induction "hi - lo" arbitrary: lo)
  case 0
  then show ?case by (simp add: delta_Nil)
next
  case (Suc n)
  then have lt: "lo < hi" and n: "n = hi - Suc lo" by simp_all
  from Suc.hyps(1)[OF n Suc.prems] Suc.prems show ?case
    by (auto simp: dump_Cons[OF lt] intro: delta.intros)
qed

lemma dump_counts:
  "from_count (dump CHR ''-'' x lo hi) = hi - lo" "to_count (dump CHR ''-'' x lo hi) = 0"
  "from_count (dump CHR ''+'' x lo hi) = 0" "to_count (dump CHR ''+'' x lo hi) = hi - lo"
  "from_count (dump CHR '' '' x lo hi) = hi - lo" "to_count (dump CHR '' '' x lo hi) = hi - lo"
proof -
  have "from_count (dump CHR ''-'' x lo hi) = hi - lo \<and> to_count (dump CHR ''-'' x lo hi) = 0 \<and>
        from_count (dump CHR ''+'' x lo hi) = 0 \<and> to_count (dump CHR ''+'' x lo hi) = hi - lo \<and>
        from_count (dump CHR '' '' x lo hi) = hi - lo \<and> to_count (dump CHR '' '' x lo hi) = hi - lo"
  proof (induction "hi - lo" arbitrary: lo)
    case 0
    then show ?case by simp
  next
    case (Suc n)
    then have lt: "lo < hi" and n: "n = hi - Suc lo" by simp_all
    from Suc.hyps(1)[OF n] Suc.hyps(2) show ?case by (simp add: dump_Cons[OF lt])
  qed
  then show "from_count (dump CHR ''-'' x lo hi) = hi - lo" "to_count (dump CHR ''-'' x lo hi) = 0"
  "from_count (dump CHR ''+'' x lo hi) = 0" "to_count (dump CHR ''+'' x lo hi) = hi - lo"
  "from_count (dump CHR '' '' x lo hi) = hi - lo" "to_count (dump CHR '' '' x lo hi) = hi - lo"
    by simp_all
qed

lemma plain_replace_delta:
  "delta (plain_replace a alo ahi b blo bhi) \<and>
   from_count (plain_replace a alo ahi b blo bhi) = ahi - alo \<and>
   to_count (plain_replace a alo ahi b blo bhi) = bhi - blo"
  by (simp add: plain_replace_def dump_counts delta_append dump_delta)

lemma qformat_delta:
  "(delta L \<longrightarrow> delta (qformat aline bline atags btags @ L)) \<and>
   from_count (qformat aline bline atags btags) = 1 \<and>
   to_count (qformat aline bline atags btags) = 1"
  by (auto simp: qformat_def Let_def intro: delta.intros)

lemma synch_lines_delta:
  "(delta L \<longrightarrow> delta (synch_lines charjunk aelt belt identical @ L)) \<and>
   from_count (synch_lines charjunk aelt belt identical) = 1 \<and>
   to_count (synch_lines charjunk aelt belt identical) = 1"
  using qformat_delta
  by (auto simp: synch_lines_def split: prod.splits intro: delta.intros)

lemma fancy_delta:
  "delta (fancy_replace charjunk a alo ahi b blo bhi) \<and>
   from_count (fancy_replace charjunk a alo ahi b blo bhi) = ahi - alo \<and>
   to_count (fancy_replace charjunk a alo ahi b blo bhi) = bhi - blo"
  "delta (fancy_helper charjunk a alo ahi b blo bhi) \<and>
   from_count (fancy_helper charjunk a alo ahi b blo bhi) = ahi - alo \<and>
   to_count (fancy_helper charjunk a alo ahi b blo bhi) = bhi - blo"
proof (induction charjunk a alo ahi b blo bhi and charjunk a alo ahi b blo bhi
       rule: fancy_replace_fancy_helper.induct)
  case (1 charjunk a alo ahi b blo bhi)
  show ?case
  proof (cases "synch_point (search_rows charjunk a b [alo..<ahi] [blo..<bhi] (None, None))")
    case None
    then show ?thesis by (simp add: fancy_replace.simps plain_replace_delta)
  next
    case (Some sp)
    obtain best_i best_j ident where sp: "sp = (best_i, best_j, ident)" by (cases sp)
    from synch_point_range[OF Some[unfolded sp]]
    have r: "alo \<le> best_i" "best_i < ahi" "blo \<le> best_j" "best_j < bhi" by simp_all
    have h1: "delta (fancy_helper charjunk a alo best_i b blo best_j) \<and>
              from_count (fancy_helper charjunk a alo best_i b blo best_j) = best_i - alo \<and>
              to_count (fancy_helper charjunk a alo best_i b blo best_j) = best_j - blo"
      by (rule "1.IH"(1)[OF Some, of best_i "(best_j, ident)" best_j ident]) (simp_all add: sp)
    have h2: "delta (fancy_helper charjunk a (best_i + 1) ahi b (best_j + 1) bhi) \<and>
              from_count (fancy_helper charjunk a (best_i + 1) ahi b (best_j + 1) bhi) = ahi - (best_i + 1) \<and>
              to_count (fancy_helper charjunk a (best_i + 1) ahi b (best_j + 1) bhi) = bhi - (best_j + 1)"
      by (rule "1.IH"(2)[OF Some, of best_i "(best_j, ident)" best_j ident]) (simp_all add: sp)
    have e: "fancy_replace charjunk a alo ahi b blo bhi =
             fancy_helper charjunk a alo best_i b blo best_j @
             synch_lines charjunk (a ! best_i) (b ! best_j) ident @
             fancy_helper charjunk a (best_i + 1) ahi b (best_j + 1) bhi"
      by (subst fancy_replace.simps) (simp add: Some sp)
    have d: "delta (synch_lines charjunk (a ! best_i) (b ! best_j) ident @
                    fancy_helper charjunk a (best_i + 1) ahi b (best_j + 1) bhi)"
      using synch_lines_delta h2 by blast
    show ?thesis
      using h1 h2 d r synch_lines_delta[of "[]" charjunk "a ! best_i" "b ! best_j" ident]
      by (simp add: e delta_append) arith
  qed
next
  case (2 charjunk a alo ahi b blo bhi)
  show ?case
  proof (cases "alo < ahi \<and> blo < bhi")
    case True
    with "2.IH" show ?thesis by (simp add: fancy_helper.simps)
  next
    case False
    then show ?thesis
      by (auto simp: fancy_helper.simps dump_counts dump_delta delta_Nil)
  qed
qed

lemma tiles_le: "tiles i j bs la lb \<Longrightarrow> i \<le> la \<and> j \<le> lb"
proof (induction bs arbitrary: i j)
  case Nil
  then show ?case by simp
next
  case (Cons x bs)
  obtain ai bj sz where x: "x = (ai, bj, sz)" by (cases x)
  from Cons.prems have p: "i \<le> ai" "j \<le> bj" "tiles (ai + sz) (bj + sz) bs la lb" by (simp_all add: x)
  from Cons.IH[OF p(3)] p(1,2) show ?case by simp
qed

lemma render_delta:
  assumes "case op of (tag, alo, ahi, blo, bhi) \<Rightarrow>
             (tag = Delete \<longrightarrow> bhi \<le> blo) \<and> (tag = Insert \<longrightarrow> ahi \<le> alo) \<and>
             (tag = Equal \<longrightarrow> ahi - alo = bhi - blo)"
  shows "delta (render charjunk a b op) \<and>
         from_count (render charjunk a b op) = fst (snd (snd op)) - fst (snd op) \<and>
         to_count (render charjunk a b op) = snd (snd (snd (snd op))) - fst (snd (snd (snd op)))"
proof -
  obtain tag alo ahi blo bhi where op: "op = (tag, alo, ahi, blo, bhi)" by (cases op)
  show ?thesis
    using assms fancy_delta(1)[of charjunk a alo ahi b blo bhi]
    by (cases tag) (simp_all add: op render_def dump_counts dump_delta space_chr_def)
qed

lemma opcodes_loop_delta:
  "tiles i j bs la lb \<Longrightarrow>
   delta (concat (map (render charjunk a b) (opcodes_loop i j bs))) \<and>
   from_count (concat (map (render charjunk a b) (opcodes_loop i j bs))) = la - i \<and>
   to_count (concat (map (render charjunk a b) (opcodes_loop i j bs))) = lb - j"
proof (induction bs arbitrary: i j)
  case Nil
  then show ?case by (simp add: delta_Nil)
next
  case (Cons x bs)
  obtain ai bj sz where x: "x = (ai, bj, sz)" by (cases x)
  from Cons.prems have p: "i \<le> ai" "j \<le> bj" "tiles (ai + sz) (bj + sz) bs la lb" by (simp_all add: x)
  from tiles_le[OF p(3)] have le: "ai + sz \<le> la" "bj + sz \<le> lb" by simp_all
  let ?rest = "concat (map (render charjunk a b) (opcodes_loop (ai + sz) (bj + sz) bs))"
  from Cons.IH[OF p(3)] have ih: "delta ?rest" "from_count ?rest = la - (ai + sz)"
    "to_count ?rest = lb - (bj + sz)" by simp_all
  define gap where "gap =
     (if i < ai \<and> j < bj then [(Replace, i, ai, j, bj)]
      else if i < ai then [(Delete, i, ai, j, bj)]
      else if j < bj then [(Insert, i, ai, j, bj)]
      else [])"
  define eq where "eq = (if sz \<noteq> 0 then [(Equal, ai, ai + sz, bj, bj + sz)] else [])"
  have g: "delta (concat (map (render charjunk a b) gap)) \<and>
           from_count (concat (map (render charjunk a b) gap)) = ai - i \<and>
           to_count (concat (map (render charjunk a b) gap)) = bj - j"
    using p(1,2)
      render_delta[of "(Replace, i, ai, j, bj)" charjunk a b]
      render_delta[of "(Delete, i, ai, j, bj)" charjunk a b]
      render_delta[of "(Insert, i, ai, j, bj)" charjunk a b]
    by (auto simp: gap_def delta_Nil)
  have e: "delta (concat (map (render charjunk a b) eq)) \<and>
           from_count (concat (map (render charjunk a b) eq)) = sz \<and>
           to_count (concat (map (render charjunk a b) eq)) = sz"
    using render_delta[of "(Equal, ai, ai + sz, bj, bj + sz)" charjunk a b]
    by (auto simp: eq_def delta_Nil)
  have o: "opcodes_loop i j (x # bs) = gap @ eq @ opcodes_loop (ai + sz) (bj + sz) bs"
    by (simp add: x gap_def eq_def)
  show ?case
    using g e ih le p(1,2) by (simp add: o delta_append del: opcodes_loop.simps)
qed

lemma compare_delta:
  "delta (compare linejunk charjunk a b) \<and>
   from_count (compare linejunk charjunk a b) = length a \<and>
   to_count (compare linejunk charjunk a b) = length b"
proof -
  have c: "compare linejunk charjunk a b =
           concat (map (render charjunk a b) (opcodes_loop 0 0 (get_matching_blocks linejunk a b)))"
    by (simp add: compare_def render_def get_opcodes_def)
  from opcodes_loop_delta[OF get_matching_blocks_tiles[of linejunk a b], of charjunk]
  show ?thesis by (simp add: c)
qed

subsection \<open>The two queues of \<open>_line_pair_iterator\<close>\<close>

lemma froms_simps [simp]:
  "froms [] = []" "froms (xs @ ys) = froms xs @ froms ys"
  "froms ((Some l, t, d) # items) = (l, d) # froms items"
  "froms ((None, t, d) # items) = froms items"
  by (simp_all add: froms_def)

lemma tos_simps [simp]:
  "tos [] = []" "tos (xs @ ys) = tos xs @ tos ys"
  "tos ((f, Some l, d) # items) = (l, d) # tos items"
  "tos ((f, None, d) # items) = tos items"
  by (simp_all add: tos_def)

lemma pair_up_simps [simp]:
  "pair_up [] T = []" "pair_up F [] = []"
  "pair_up ((f, fd) # F) ((t, td) # T) = (f, t, fd \<or> td) # pair_up F T"
  by (simp_all add: pair_up_def)

lemma line_pair_iterator_zip:
  "line_pair_iterator fq tq items = pair_up (fq @ froms items) (tq @ tos items)"
  by (induction fq tq items rule: line_pair_iterator.induct)
     (auto split: option.splits)

lemma drop_Cons_nth: "k < length xs \<Longrightarrow> drop k xs = xs ! k # drop (Suc k) xs"
  by (simp add: Cons_nth_drop_Suc)

lemma balanced_both:
  assumes "real_line f" "real_line t" "balanced p F T"
  shows "balanced p (f # F) (t # T)"
proof (cases "0 \<le> p")
  case True
  show ?thesis
  proof (cases "p = 0")
    case True
    with assms show ?thesis by (simp add: balanced_def one_real_def)
  next
    case False
    with True obtain k where k: "nat p = Suc k" by (cases "nat p") auto
    with assms(3) True have l: "k < length F" and a: "list_all2 one_real (drop (Suc k) F) T"
      by (simp_all add: balanced_def)
    have "list_all2 one_real (drop k F) (t # T)"
      using a assms(2) by (simp add: drop_Cons_nth[OF l] one_real_def)
    with True k l show ?thesis by (simp add: balanced_def)
  qed
next
  case False
  then obtain k where k: "nat (- p) = Suc k" by (cases "nat (- p)") auto
  with assms(3) False have l: "k < length T" and a: "list_all2 one_real F (drop (Suc k) T)"
    by (simp_all add: balanced_def)
  have "list_all2 one_real (f # F) (drop k T)"
    using a assms(1) by (simp add: drop_Cons_nth[OF l] one_real_def)
  with False k l show ?thesis by (simp add: balanced_def)
qed

lemma balanced_from:
  assumes "real_line f" "balanced (p - 1) F T"
  shows "balanced p (f # F) T"
proof (cases "1 \<le> p")
  case True
  then obtain k where k: "nat p = Suc k" "nat (p - 1) = k" by (cases "nat p") auto
  with assms(2) True show ?thesis by (simp add: balanced_def)
next
  case False
  then have n: "nat (- (p - 1)) = Suc (nat (- p))" by simp
  from assms(2) False n have l: "nat (- p) < length T"
    and a: "list_all2 one_real F (drop (Suc (nat (- p))) T)" by (simp_all add: balanced_def)
  have c: "list_all2 one_real (f # F) (drop (nat (- p)) T)"
    using a assms(1) by (simp add: drop_Cons_nth[OF l] one_real_def)
  show ?thesis
  proof (cases "p = 0")
    case True
    with c show ?thesis by (simp add: balanced_def)
  next
    case nz: False
    with False have "\<not> 0 \<le> p" by simp
    with c l show ?thesis by (simp add: balanced_def)
  qed
qed

lemma balanced_to:
  assumes "real_line t" "balanced (p + 1) F T"
  shows "balanced p F (t # T)"
proof (cases "p < 0")
  case True
  then obtain k where k: "nat (- p) = Suc k" by (cases "nat (- p)") auto
  show ?thesis
  proof (cases "p + 1 < 0")
    case lt: True
    then have "nat (- (p + 1)) = k" using k by simp
    with assms(2) lt True k show ?thesis by (simp add: balanced_def)
  next
    case False
    with True have p: "p = - 1" by simp
    with assms(2) show ?thesis by (simp add: balanced_def)
  qed
next
  case False
  then have n: "nat (p + 1) = Suc (nat p)" by simp
  from assms(2) False n have l: "nat p < length F"
    and a: "list_all2 one_real (drop (Suc (nat p)) F) T" by (simp_all add: balanced_def)
  have "list_all2 one_real (drop (nat p) F) (t # T)"
    using a assms(1) by (simp add: drop_Cons_nth[OF l] one_real_def)
  with False l show ?thesis by (simp add: balanced_def)
qed

lemma froms_blanks: "froms (blanks n) = replicate (nat n) (blank_line, True)"
  by (induction "nat n" arbitrary: n) (auto simp: blanks_def froms_def)

lemma tos_blanks: "tos (blanks n) = replicate (nat (- n)) (blank_line, True)"
  by (induction "nat (- n)" arbitrary: n) (auto simp: blanks_def tos_def)

lemma drop_replicate_Cons: "drop n (x # replicate n x @ ys) = x # ys"
  by (induction n) auto

lemma balanced_end: "balanced p (froms (blanks p)) (tos (blanks p))"
  by (simp add: balanced_def froms_blanks tos_blanks)

lemma balanced_flush_del:
  assumes "real_line f" "balanced 0 F T"
  shows "balanced p (froms (blanks (p - 1)) @ f # F) (tos (blanks (p - 1)) @ T)"
proof -
  from assms(2) have a: "list_all2 one_real F T" by (simp add: balanced_def)
  show ?thesis
  proof (cases "1 \<le> p")
    case True
    then have "nat p = Suc (nat (p - 1))" by simp
    with True a show ?thesis by (simp add: balanced_def froms_blanks tos_blanks)
  next
    case False
    then have n: "nat (- (p - 1)) = Suc (nat (- p))" by simp
    have "list_all2 one_real (f # F) ((blank_line, True) # T)"
      using a assms(1) by (simp add: one_real_def)
    with False n show ?thesis
      by (cases "p = 0") (simp_all add: balanced_def froms_blanks tos_blanks drop_replicate_Cons)
  qed
qed

lemma balanced_flush_ins:
  assumes "real_line t" "balanced 0 F T"
  shows "balanced p (froms (blanks (p + 1)) @ F) (tos (blanks (p + 1)) @ t # T)"
proof -
  from assms(2) have a: "list_all2 one_real F T" by (simp add: balanced_def)
  show ?thesis
  proof (cases "p < 0")
    case True
    then have n: "nat (- p) = Suc (nat (- (p + 1)))" by simp
    with True a show ?thesis by (simp add: balanced_def froms_blanks tos_blanks)
  next
    case False
    then have n: "nat (p + 1) = Suc (nat p)" by simp
    have "list_all2 one_real ((blank_line, True) # F) (t # T)"
      using a assms(1) by (simp add: one_real_def)
    with False n show ?thesis
      by (simp add: balanced_def froms_blanks tos_blanks drop_replicate_Cons)
  qed
qed

subsection \<open>One step of \<open>_line_iterator\<close>\<close>

lemma delta_nonempty: "delta L \<Longrightarrow> [] \<notin> set L"
  by (induction L rule: delta.induct) auto

lemma lookahead_tag4: "[] \<notin> set L \<Longrightarrow> lookahead L = Returns (tag4 L)"
proof -
  assume a: "[] \<notin> set L"
  have "set (take 4 (L @ replicate 4 ''X'')) \<subseteq> set (L @ replicate 4 ''X'')" by (rule set_take_subset)
  with a have "[] \<notin> set (take 4 (L @ replicate 4 ''X''))" by auto
  then show ?thesis by (simp add: lookahead_def tag4_def Let_def)
qed

lemma tag4_Nil: "tag4 [] = ''XXXX''"
  by (simp add: tag4_def eval_nat_numeral)

lemma tag4_length: "length (tag4 L) = 4"
  by (simp add: tag4_def)

lemma tag4_Cons: "tag4 (l # L) = hd l # take 3 (tag4 L)"
proof -
  have "take 4 ((l # L) @ replicate 4 ''X'') = l # take 3 (L @ replicate 4 ''X'')"
    by (simp add: eval_nat_numeral)
  moreover have "take 3 (L @ replicate 4 ''X'') = take 3 (take 4 (L @ replicate 4 ''X''))"
    by simp
  ultimately show ?thesis by (simp add: tag4_def take_map del: take_take)
qed

lemma tag4_shape: "\<exists>c0 c1 c2 c3. tag4 L = [c0, c1, c2, c3]"
proof -
  obtain xs where "tag4 L = xs" "length xs = 4" using tag4_length by blast
  then show ?thesis
    by (cases xs; simp; cases "tl xs"; simp; cases "tl (tl xs)"; simp; cases "tl (tl (tl xs))"; auto)
qed

lemma delta_tag4:
  "delta L \<Longrightarrow> \<exists>c0 c1 c2 c3. tag4 L = [c0, c1, c2, c3] \<and> c0 \<noteq> CHR ''?'' \<and>
     (c0 = CHR ''+'' \<longrightarrow> c1 \<noteq> CHR ''?'')"
proof (induction L rule: delta.induct)
  case delta_Nil
  show ?case by (simp add: tag4_Nil)
next
  case (delta_Eq L r)
  obtain c0 c1 c2 c3 where "tag4 L = [c0, c1, c2, c3]" using tag4_shape by blast
  then show ?case by (simp add: tag4_Cons)
next
  case (delta_Del L r)
  obtain c0 c1 c2 c3 where "tag4 L = [c0, c1, c2, c3]" using tag4_shape by blast
  then show ?case by (simp add: tag4_Cons)
next
  case (delta_Ins L r)
  then show ?case by (auto simp: tag4_Cons)
next
  case (delta_Chg L r1 r2 r3 r4)
  obtain c0 c1 c2 c3 where "tag4 L = [c0, c1, c2, c3]" using tag4_shape by blast
  then show ?case by (simp add: tag4_Cons)
next
  case (delta_ChgB L r1 r3 r4)
  obtain c0 c1 c2 c3 where "tag4 L = [c0, c1, c2, c3]" using tag4_shape by blast
  then show ?case by (simp add: tag4_Cons)
next
  case (delta_ChgA L r1 r2 r3)
  obtain c0 c1 c2 c3 where "tag4 L = [c0, c1, c2, c3]" using tag4_shape by blast
  then show ?case by (simp add: tag4_Cons)
qed

lemma make_line_one:
  "key \<noteq> Some CHR ''?'' \<Longrightarrow>
   \<exists>text. make_line (l # rest) key n = Returns ((Some (int n), text), rest)"
  by (cases key) (auto simp: make_line_def Let_def)

lemma make_line_two:
  "\<exists>text. make_line (l # m # rest) (Some CHR ''?'') n = Returns ((Some (int n), text), rest)"
  by (simp add: make_line_def)

lemma yields_Returns [simp]: "yields xs (Returns ys) = Returns (xs @ ys)"
  by (simp add: yields_def obind_def)

lemma obind_Returns [simp]: "obind (Returns x) f = f x"
  by (simp add: obind_def)

lemma startswith_simps:
  "startswith s [] = True"
  "startswith [] (c # p) = False"
  "startswith (x # s) (c # p) = (x = c \<and> startswith s p)"
  by (auto simp: startswith_def)

lemma step_Eq:
  assumes "delta L"
  shows "\<exists>f t. fst f = Some (int (Suc nf)) \<and> fst t = Some (int (Suc nt)) \<and>
     line_iterator ((CHR '' '' # r) # L) p nf nt held =
       yields [(Some f, Some t, False)] (line_iterator L p (Suc nf) (Suc nt) held)"
proof -
  let ?l = "CHR '' '' # r"
  obtain c0 c1 c2 c3 where t: "tag4 L = [c0, c1, c2, c3]" using tag4_shape by blast
  from delta_nonempty[OF assms] have "[] \<notin> set (?l # L)" by simp
  from lookahead_tag4[OF this] have la: "lookahead (?l # L) = Returns [CHR '' '', c0, c1, c2]"
    by (simp add: tag4_Cons t)
  obtain tf where mf: "make_line (?l # L) None (Suc nf) = Returns ((Some (int (Suc nf)), tf), L)"
    using make_line_one[of None ?l L "Suc nf"] by auto
  obtain tt where mt: "make_line (?l # L) None (Suc nt) = Returns ((Some (int (Suc nt)), tt), L)"
    using make_line_one[of None ?l L "Suc nt"] by auto
  have "line_iterator (?l # L) p nf nt held =
       yields [(Some (Some (int (Suc nf)), tf), Some (Some (int (Suc nt)), tt), False)]
         (line_iterator L p (Suc nf) (Suc nt) held)"
    by (subst line_iterator.simps) (simp add: la startswith_simps mf mt)
  then show ?thesis by (metis fst_conv)
qed

lemma step_Del:
  assumes "delta L"
  shows "\<exists>f. fst f = Some (int (Suc nf)) \<and>
     (line_iterator ((CHR ''-'' # r) # L) p nf nt held =
        yields [(Some f, None, True)] (line_iterator L (p - 1) (Suc nf) nt held) \<or>
      line_iterator ((CHR ''-'' # r) # L) p nf nt held =
        yields (blanks (p - 1) @ [(Some f, None, True)])
          (line_iterator L 0 (Suc nf) nt (Some (Some f, None))))"
proof -
  let ?l = "CHR ''-'' # r"
  from delta_tag4[OF assms] obtain c0 c1 c2 c3 where
    t: "tag4 L = [c0, c1, c2, c3]" and c: "c0 \<noteq> CHR ''?''" "c0 = CHR ''+'' \<longrightarrow> c1 \<noteq> CHR ''?''"
    by blast
  from delta_nonempty[OF assms] have "[] \<notin> set (?l # L)" by simp
  from lookahead_tag4[OF this] have la: "lookahead (?l # L) = Returns [CHR ''-'', c0, c1, c2]"
    by (simp add: tag4_Cons t)
  obtain tf where mf: "make_line (?l # L) (Some CHR ''-'') (Suc nf) = Returns ((Some (int (Suc nf)), tf), L)"
    using make_line_one[of "Some CHR ''-''" ?l L "Suc nf"] by auto
  let ?f = "(Some (int (Suc nf)), tf)"
  have "line_iterator (?l # L) p nf nt held \<in>
        {yields [(Some ?f, None, True)] (line_iterator L (p - 1) (Suc nf) nt held),
         yields (blanks (p - 1) @ [(Some ?f, None, True)])
          (line_iterator L 0 (Suc nf) nt (Some (Some ?f, None)))}"
    using c by (subst line_iterator.simps) (auto simp: la startswith_simps mf)
  then show ?thesis by (metis fst_conv insertE singletonD)
qed

lemma step_Ins:
  assumes "delta L"
  shows "\<exists>t. fst t = Some (int (Suc nt)) \<and>
     (line_iterator ((CHR ''+'' # r) # L) p nf nt held =
        yields [(None, Some t, True)] (line_iterator L (p + 1) nf (Suc nt) held) \<or>
      line_iterator ((CHR ''+'' # r) # L) p nf nt held =
        yields (blanks (p + 1) @ [(None, Some t, True)])
          (line_iterator L 0 nf (Suc nt) (Some (None, Some t))))"
proof -
  let ?l = "CHR ''+'' # r"
  obtain c0 c1 c2 c3 where t: "tag4 L = [c0, c1, c2, c3]" using tag4_shape by blast
  from delta_nonempty[OF assms] have "[] \<notin> set (?l # L)" by simp
  from lookahead_tag4[OF this] have la: "lookahead (?l # L) = Returns [CHR ''+'', c0, c1, c2]"
    by (simp add: tag4_Cons t)
  obtain tt where mt: "make_line (?l # L) (Some CHR ''+'') (Suc nt) = Returns ((Some (int (Suc nt)), tt), L)"
    using make_line_one[of "Some CHR ''+''" ?l L "Suc nt"] by auto
  let ?t = "(Some (int (Suc nt)), tt)"
  have "line_iterator (?l # L) p nf nt held \<in>
        {yields [(None, Some ?t, True)] (line_iterator L (p + 1) nf (Suc nt) held),
         yields (blanks (p + 1) @ [(None, Some ?t, True)])
          (line_iterator L 0 nf (Suc nt) (Some (None, Some ?t)))}"
    by (subst line_iterator.simps) (auto simp: la startswith_simps mt)
  then show ?thesis by (metis fst_conv insertE singletonD)
qed

lemma step_Chg:
  assumes "delta L"
  shows "\<exists>f t. fst f = Some (int (Suc nf)) \<and> fst t = Some (int (Suc nt)) \<and>
     line_iterator ((CHR ''-'' # r1) # (CHR ''?'' # r2) # (CHR ''+'' # r3) # (CHR ''?'' # r4) # L)
        p nf nt held =
       yields [(Some f, Some t, True)] (line_iterator L p (Suc nf) (Suc nt) held)"
proof -
  let ?T = "(CHR ''+'' # r3) # (CHR ''?'' # r4) # L"
  let ?L = "(CHR ''-'' # r1) # (CHR ''?'' # r2) # ?T"
  obtain c0 c1 c2 c3 where t: "tag4 L = [c0, c1, c2, c3]" using tag4_shape by blast
  from delta_nonempty[OF assms] have "[] \<notin> set ?L" by simp
  from lookahead_tag4[OF this] have la: "lookahead ?L = Returns ''-?+?''"
    by (simp add: tag4_Cons t)
  obtain tf where mf: "make_line ?L (Some CHR ''?'') (Suc nf) = Returns ((Some (int (Suc nf)), tf), ?T)"
    using make_line_two[of "CHR ''-'' # r1" "CHR ''?'' # r2" ?T "Suc nf"] by auto
  obtain tt where mt: "make_line ?T (Some CHR ''?'') (Suc nt) = Returns ((Some (int (Suc nt)), tt), L)"
    using make_line_two[of "CHR ''+'' # r3" "CHR ''?'' # r4" L "Suc nt"] by auto
  have "line_iterator ?L p nf nt held =
       yields [(Some (Some (int (Suc nf)), tf), Some (Some (int (Suc nt)), tt), True)]
         (line_iterator L p (Suc nf) (Suc nt) held)"
    by (subst line_iterator.simps) (simp add: la startswith_simps mf mt)
  then show ?thesis by (metis fst_conv)
qed

lemma step_ChgB:
  assumes "delta L"
  shows "\<exists>f t. fst f = Some (int (Suc nf)) \<and> fst t = Some (int (Suc nt)) \<and>
     line_iterator ((CHR ''-'' # r1) # (CHR ''+'' # r3) # (CHR ''?'' # r4) # L) p nf nt held =
       yields [(Some f, Some t, True)] (line_iterator L p (Suc nf) (Suc nt) held)"
proof -
  let ?T = "(CHR ''+'' # r3) # (CHR ''?'' # r4) # L"
  let ?L = "(CHR ''-'' # r1) # ?T"
  obtain c0 c1 c2 c3 where t: "tag4 L = [c0, c1, c2, c3]" using tag4_shape by blast
  from delta_nonempty[OF assms] have "[] \<notin> set ?L" by simp
  from lookahead_tag4[OF this] have la: "lookahead ?L = Returns [CHR ''-'', CHR ''+'', CHR ''?'', c0]"
    by (simp add: tag4_Cons t)
  obtain tf where mf: "make_line ?L None (Suc nf) = Returns ((Some (int (Suc nf)), tf), ?T)"
    using make_line_one[of None "CHR ''-'' # r1" ?T "Suc nf"] by auto
  obtain tt where mt: "make_line ?T (Some CHR ''?'') (Suc nt) = Returns ((Some (int (Suc nt)), tt), L)"
    using make_line_two[of "CHR ''+'' # r3" "CHR ''?'' # r4" L "Suc nt"] by auto
  have "line_iterator ?L p nf nt held =
       yields [(Some (Some (int (Suc nf)), tf), Some (Some (int (Suc nt)), tt), True)]
         (line_iterator L p (Suc nf) (Suc nt) held)"
    by (subst line_iterator.simps) (simp add: la startswith_simps mf mt)
  then show ?thesis by (metis fst_conv)
qed

lemma step_ChgA:
  assumes "delta L"
  shows "\<exists>f t. fst f = Some (int (Suc nf)) \<and> fst t = Some (int (Suc nt)) \<and>
     line_iterator ((CHR ''-'' # r1) # (CHR ''?'' # r2) # (CHR ''+'' # r3) # L) p nf nt held =
       yields [(Some f, Some t, True)] (line_iterator L p (Suc nf) (Suc nt) held)"
proof -
  let ?T = "(CHR ''+'' # r3) # L"
  let ?L = "(CHR ''-'' # r1) # (CHR ''?'' # r2) # ?T"
  from delta_tag4[OF assms] obtain c0 c1 c2 c3 where
    t: "tag4 L = [c0, c1, c2, c3]" and c: "c0 \<noteq> CHR ''?''" by blast
  from delta_nonempty[OF assms] have "[] \<notin> set ?L" by simp
  from lookahead_tag4[OF this] have la: "lookahead ?L = Returns [CHR ''-'', CHR ''?'', CHR ''+'', c0]"
    by (simp add: tag4_Cons t)
  obtain tf where mf: "make_line ?L (Some CHR ''?'') (Suc nf) = Returns ((Some (int (Suc nf)), tf), ?T)"
    using make_line_two[of "CHR ''-'' # r1" "CHR ''?'' # r2" ?T "Suc nf"] by auto
  obtain tt where mt: "make_line ?T None (Suc nt) = Returns ((Some (int (Suc nt)), tt), L)"
    using make_line_one[of None "CHR ''+'' # r3" L "Suc nt"] by auto
  have "line_iterator ?L p nf nt held =
       yields [(Some (Some (int (Suc nf)), tf), Some (Some (int (Suc nt)), tt), True)]
         (line_iterator L p (Suc nf) (Suc nt) held)"
    using c by (subst line_iterator.simps) (simp add: la startswith_simps mf mt)
  then show ?thesis by (metis fst_conv)
qed

lemma step_Nil: "line_iterator [] p nf nt held = Returns (blanks p)"
  by (subst line_iterator.simps) (simp add: lookahead_def startswith_simps eval_nat_numeral)

subsection \<open>The items of \<open>_line_iterator\<close> on a delta\<close>

lemma numbers_simps [simp]:
  "numbers [] = []" "numbers (xs @ ys) = numbers xs @ numbers ys"
  "numbers (((Some n, s), d) # F) = n # numbers F"
  "numbers (((None, s), d) # F) = numbers F"
  by (simp_all add: numbers_def)

lemma numbers_blank [simp]: "numbers (replicate k (blank_line, d)) = []"
  by (induction k) (simp_all add: blank_line_def)

lemma nums_Suc: "nums n (Suc c) = int (Suc n) # nums (Suc n) c"
  by (simp add: nums_def upt_conv_Cons del: upt_Suc)

lemma nums_0: "nums n 0 = []"
  by (simp add: nums_def)

lemma good_both:
  assumes "fst f = Some (int (Suc nf))" "fst t = Some (int (Suc nt))"
    and "good p (Suc nf) (Suc nt) cf ct r"
  shows "good p nf nt (Suc cf) (Suc ct) (yields [(Some f, Some t, d)] r)"
proof -
  from assms(3) obtain items where i: "r = Returns items" "balanced p (froms items) (tos items)"
    "numbers (froms items) = nums (Suc nf) cf"
    "numbers (tos items) = nums (Suc nt) ct"
    by (auto simp: good_def)
  obtain fs where f: "f = (Some (int (Suc nf)), fs)" using assms(1) by (cases f) auto
  obtain ts where t: "t = (Some (int (Suc nt)), ts)" using assms(2) by (cases t) auto
  have b: "balanced p ((f, d) # froms items) ((t, d) # tos items)"
    by (rule balanced_both) (simp_all add: real_line_def f t i(2))
  show ?thesis
    unfolding good_def
    by (rule exI[of _ "(Some f, Some t, d) # items"])
       (use b i in \<open>simp add: f t nums_Suc\<close>)
qed

lemma good_from:
  assumes "fst f = Some (int (Suc nf))" "good (p - 1) (Suc nf) nt cf ct r"
  shows "good p nf nt (Suc cf) ct (yields [(Some f, None, True)] r)"
proof -
  from assms(2) obtain items where i: "r = Returns items" "balanced (p - 1) (froms items) (tos items)"
    "numbers (froms items) = nums (Suc nf) cf"
    "numbers (tos items) = nums nt ct"
    by (auto simp: good_def)
  obtain fs where f: "f = (Some (int (Suc nf)), fs)" using assms(1) by (cases f) auto
  have b: "balanced p ((f, True) # froms items) (tos items)"
    by (rule balanced_from) (simp_all add: real_line_def f i(2))
  show ?thesis
    unfolding good_def
    by (rule exI[of _ "(Some f, None, True) # items"])
       (use b i in \<open>simp add: f nums_Suc\<close>)
qed

lemma good_to:
  assumes "fst t = Some (int (Suc nt))" "good (p + 1) nf (Suc nt) cf ct r"
  shows "good p nf nt cf (Suc ct) (yields [(None, Some t, True)] r)"
proof -
  from assms(2) obtain items where i: "r = Returns items" "balanced (p + 1) (froms items) (tos items)"
    "numbers (froms items) = nums nf cf"
    "numbers (tos items) = nums (Suc nt) ct"
    by (auto simp: good_def)
  obtain ts where t: "t = (Some (int (Suc nt)), ts)" using assms(1) by (cases t) auto
  have b: "balanced p (froms items) ((t, True) # tos items)"
    by (rule balanced_to) (simp_all add: real_line_def t i(2))
  show ?thesis
    unfolding good_def
    by (rule exI[of _ "(None, Some t, True) # items"])
       (use b i in \<open>simp add: t nums_Suc\<close>)
qed

lemma good_from_flush:
  assumes "fst f = Some (int (Suc nf))" "good 0 (Suc nf) nt cf ct r"
  shows "good p nf nt (Suc cf) ct (yields (blanks (p - 1) @ [(Some f, None, True)]) r)"
proof -
  from assms(2) obtain items where i: "r = Returns items" "balanced 0 (froms items) (tos items)"
    "numbers (froms items) = nums (Suc nf) cf"
    "numbers (tos items) = nums nt ct"
    by (auto simp: good_def)
  obtain fs where f: "f = (Some (int (Suc nf)), fs)" using assms(1) by (cases f) auto
  have b: "balanced p (froms (blanks (p - 1)) @ (f, True) # froms items)
                      (tos (blanks (p - 1)) @ tos items)"
    by (rule balanced_flush_del) (simp_all add: real_line_def f i(2))
  show ?thesis
    unfolding good_def
    by (rule exI[of _ "blanks (p - 1) @ (Some f, None, True) # items"])
       (use b i in \<open>simp add: f nums_Suc froms_blanks tos_blanks\<close>)
qed

lemma good_to_flush:
  assumes "fst t = Some (int (Suc nt))" "good 0 nf (Suc nt) cf ct r"
  shows "good p nf nt cf (Suc ct) (yields (blanks (p + 1) @ [(None, Some t, True)]) r)"
proof -
  from assms(2) obtain items where i: "r = Returns items" "balanced 0 (froms items) (tos items)"
    "numbers (froms items) = nums nf cf"
    "numbers (tos items) = nums (Suc nt) ct"
    by (auto simp: good_def)
  obtain ts where t: "t = (Some (int (Suc nt)), ts)" using assms(1) by (cases t) auto
  have b: "balanced p (froms (blanks (p + 1)) @ froms items)
                      (tos (blanks (p + 1)) @ (t, True) # tos items)"
    by (rule balanced_flush_ins) (simp_all add: real_line_def t i(2))
  show ?thesis
    unfolding good_def
    by (rule exI[of _ "blanks (p + 1) @ (None, Some t, True) # items"])
       (use b i in \<open>simp add: t nums_Suc froms_blanks tos_blanks\<close>)
qed

lemma good_end: "good p nf nt 0 0 (Returns (blanks p))"
  using balanced_end[of p] by (simp add: good_def nums_0 froms_blanks tos_blanks)

lemma line_iterator_good:
  "delta L \<Longrightarrow> good p nf nt (from_count L) (to_count L) (line_iterator L p nf nt held)"
proof (induction L arbitrary: p nf nt held rule: delta.induct)
  case delta_Nil
  show ?case by (simp add: step_Nil good_end)
next
  case (delta_Eq L r)
  from step_Eq[OF delta_Eq.hyps, of nf nt r p held] obtain f t where
    s: "fst f = Some (int (Suc nf))" "fst t = Some (int (Suc nt))"
       "line_iterator ((CHR '' '' # r) # L) p nf nt held =
          yields [(Some f, Some t, False)] (line_iterator L p (Suc nf) (Suc nt) held)"
    by blast
  show ?case
    using good_both[OF s(1,2) delta_Eq.IH[of p "Suc nf" "Suc nt" held]] by (simp add: s(3))
next
  case (delta_Del L r)
  from step_Del[OF delta_Del.hyps, of nf r p nt held] obtain f where
    s: "fst f = Some (int (Suc nf))"
       "line_iterator ((CHR ''-'' # r) # L) p nf nt held =
          yields [(Some f, None, True)] (line_iterator L (p - 1) (Suc nf) nt held) \<or>
        line_iterator ((CHR ''-'' # r) # L) p nf nt held =
          yields (blanks (p - 1) @ [(Some f, None, True)])
            (line_iterator L 0 (Suc nf) nt (Some (Some f, None)))"
    by blast
  from s(2) show ?case
  proof
    assume e: "line_iterator ((CHR ''-'' # r) # L) p nf nt held =
          yields [(Some f, None, True)] (line_iterator L (p - 1) (Suc nf) nt held)"
    show ?thesis
      using good_from[OF s(1) delta_Del.IH[of "p - 1" "Suc nf" nt held]] by (simp add: e)
  next
    assume e: "line_iterator ((CHR ''-'' # r) # L) p nf nt held =
          yields (blanks (p - 1) @ [(Some f, None, True)])
            (line_iterator L 0 (Suc nf) nt (Some (Some f, None)))"
    show ?thesis
      using good_from_flush[OF s(1) delta_Del.IH[of 0 "Suc nf" nt "Some (Some f, None)"], of p]
      by (simp add: e)
  qed
next
  case (delta_Ins L r)
  from step_Ins[OF delta_Ins.hyps, of nt r p nf held] obtain t where
    s: "fst t = Some (int (Suc nt))"
       "line_iterator ((CHR ''+'' # r) # L) p nf nt held =
          yields [(None, Some t, True)] (line_iterator L (p + 1) nf (Suc nt) held) \<or>
        line_iterator ((CHR ''+'' # r) # L) p nf nt held =
          yields (blanks (p + 1) @ [(None, Some t, True)])
            (line_iterator L 0 nf (Suc nt) (Some (None, Some t)))"
    by blast
  from s(2) show ?case
  proof
    assume e: "line_iterator ((CHR ''+'' # r) # L) p nf nt held =
          yields [(None, Some t, True)] (line_iterator L (p + 1) nf (Suc nt) held)"
    show ?thesis
      using good_to[OF s(1) delta_Ins.IH[of "p + 1" nf "Suc nt" held]] by (simp add: e)
  next
    assume e: "line_iterator ((CHR ''+'' # r) # L) p nf nt held =
          yields (blanks (p + 1) @ [(None, Some t, True)])
            (line_iterator L 0 nf (Suc nt) (Some (None, Some t)))"
    show ?thesis
      using good_to_flush[OF s(1) delta_Ins.IH[of 0 nf "Suc nt" "Some (None, Some t)"], of p]
      by (simp add: e)
  qed
next
  case (delta_Chg L r1 r2 r3 r4)
  from step_Chg[OF delta_Chg.hyps, of nf nt r1 r2 r3 r4 p held] obtain f t where
    s: "fst f = Some (int (Suc nf))" "fst t = Some (int (Suc nt))"
       "line_iterator ((CHR ''-'' # r1) # (CHR ''?'' # r2) # (CHR ''+'' # r3) # (CHR ''?'' # r4) # L)
          p nf nt held =
          yields [(Some f, Some t, True)] (line_iterator L p (Suc nf) (Suc nt) held)"
    by blast
  show ?case
    using good_both[OF s(1,2) delta_Chg.IH[of p "Suc nf" "Suc nt" held]] by (simp add: s(3))
next
  case (delta_ChgB L r1 r3 r4)
  from step_ChgB[OF delta_ChgB.hyps, of nf nt r1 r3 r4 p held] obtain f t where
    s: "fst f = Some (int (Suc nf))" "fst t = Some (int (Suc nt))"
       "line_iterator ((CHR ''-'' # r1) # (CHR ''+'' # r3) # (CHR ''?'' # r4) # L) p nf nt held =
          yields [(Some f, Some t, True)] (line_iterator L p (Suc nf) (Suc nt) held)"
    by blast
  show ?case
    using good_both[OF s(1,2) delta_ChgB.IH[of p "Suc nf" "Suc nt" held]] by (simp add: s(3))
next
  case (delta_ChgA L r1 r2 r3)
  from step_ChgA[OF delta_ChgA.hyps, of nf nt r1 r2 r3 p held] obtain f t where
    s: "fst f = Some (int (Suc nf))" "fst t = Some (int (Suc nt))"
       "line_iterator ((CHR ''-'' # r1) # (CHR ''?'' # r2) # (CHR ''+'' # r3) # L) p nf nt held =
          yields [(Some f, Some t, True)] (line_iterator L p (Suc nf) (Suc nt) held)"
    by blast
  show ?case
    using good_both[OF s(1,2) delta_ChgA.IH[of p "Suc nf" "Suc nt" held]] by (simp add: s(3))
qed

subsection \<open>The sequence of \<open>_mdiff\<close>\<close>

lemma as_items_simps [simp]:
  "as_items [] = []" "as_items ((f, t, d) # ps) = AlignedPair f t d # as_items ps"
  by (simp_all add: as_items_def)

lemma present_simps [simp]:
  "present [] = []" "present (Some n # nos) = n # present nos" "present (None # nos) = present nos"
  by (simp_all add: present_def)

lemma pair_up_numbers:
  "list_all2 one_real F T \<Longrightarrow>
   present (map left_number (as_items (pair_up F T))) = numbers F \<and>
   present (map right_number (as_items (pair_up F T))) = numbers T \<and>
   list_all has_line_number (as_items (pair_up F T)) \<and>
   Separator \<notin> set (as_items (pair_up F T))"
proof (induction rule: list_all2_induct)
  case Nil
  show ?case by simp
next
  case (Cons x xs y ys)
  obtain fn ft fd where x: "x = ((fn, ft), fd)" by (cases x) auto
  obtain tn tt td where y: "y = ((tn, tt), td)" by (cases y) auto
  from Cons show ?case
    by (cases fn; cases tn) (simp_all add: x y one_real_def real_line_def)
qed

lemma mdiff_no_context:
  "\<exists>F T. mdiff a b None linejunk charjunk = Returns (as_items (pair_up F T)) \<and>
     list_all2 one_real F T \<and> numbers F = nums 0 (length a) \<and> numbers T = nums 0 (length b)"
proof -
  from compare_delta[of linejunk charjunk a b]
  have d: "delta (ndiff a b linejunk charjunk)"
    and c: "from_count (ndiff a b linejunk charjunk) = length a"
       "to_count (ndiff a b linejunk charjunk) = length b"
    by (simp_all add: ndiff_def)
  from line_iterator_good[OF d, of 0 0 0 None] obtain items where
    i: "line_iterator (ndiff a b linejunk charjunk) 0 0 0 None = Returns items"
       "balanced 0 (froms items) (tos items)"
       "numbers (froms items) = nums 0 (length a)" "numbers (tos items) = nums 0 (length b)"
    by (auto simp: good_def c)
  from i(2) have b: "list_all2 one_real (froms items) (tos items)" by (simp add: balanced_def)
  have "mdiff a b None linejunk charjunk = Returns (as_items (pair_up (froms items) (tos items)))"
    by (simp add: mdiff_def i(1) line_pair_iterator_zip as_items_def)
  with b i(3,4) show ?thesis by blast
qed

lemma nums_upt: "nums 0 n = map int [1..<Suc n]"
  by (simp add: nums_def)

lemma present_length: "length (present nos) = length (filter (\<lambda>no. no \<noteq> None) nos)"
  by (induction nos) (auto simp: present_def)

lemma getDiffDetails_no_context:
  "\<exists>ds. getDiffDetails self False numlines tabSize =
          Returns (self\<lparr>fromlines := map (expand_tabs tabSize) (fromlines self),
                        tolines := map (expand_tabs tabSize) (tolines self)\<rparr>, ds) \<and>
        present (map left_number ds) = map int [1..<Suc (length (fromlines self))] \<and>
        present (map right_number ds) = map int [1..<Suc (length (tolines self))] \<and>
        list_all has_line_number ds \<and> Separator \<notin> set ds"
proof -
  let ?a = "map (expand_tabs tabSize) (fromlines self)"
  let ?b = "map (expand_tabs tabSize) (tolines self)"
  from mdiff_no_context[of ?a ?b None "Some IS_CHARACTER_JUNK"] obtain F T where
    m: "mdiff ?a ?b None None (Some IS_CHARACTER_JUNK) = Returns (as_items (pair_up F T))"
       "list_all2 one_real F T" "numbers F = nums 0 (length ?a)" "numbers T = nums 0 (length ?b)"
    by blast
  have g: "getDiffDetails self False numlines tabSize =
          Returns (self\<lparr>fromlines := ?a, tolines := ?b\<rparr>, as_items (pair_up F T))"
    by (simp add: getDiffDetails_def Let_def m(1))
  from pair_up_numbers[OF m(2)] m(3,4) g show ?thesis
    by (simp add: nums_upt del: upt_Suc)
qed

lemma as_items_set: "ps' \<subseteq> set ps \<Longrightarrow> (f, t, d) \<in> ps' \<Longrightarrow> AlignedPair f t d \<in> set (as_items ps)"
  by (force simp: as_items_def)

lemma collect_context_elems:
  "collect_context c index cl ps = Some (index', cl', ps') \<Longrightarrow>
   length cl' = length cl \<and> set cl' \<subseteq> set cl \<union> set (as_items ps) \<and> set ps' \<subseteq> set ps"
proof (induction c index cl ps rule: collect_context.induct)
  case (1 c index contextLines)
  then show ?case by simp
next
  case (2 c index contextLines from_line to_line found_diff ps)
  let ?cl = "contextLines[index mod c := AlignedPair from_line to_line found_diff]"
  have u: "set ?cl \<subseteq> insert (AlignedPair from_line to_line found_diff) (set contextLines)"
    by (rule set_update_subset_insert)
  show ?case
  proof (cases found_diff)
    case True
    with "2.prems" have e: "cl' = ?cl" "ps' = ps" by (simp_all add: Let_def)
    from u show ?thesis by (auto simp: e)
  next
    case False
    with "2.prems" have "collect_context c (index + 1) ?cl ps = Some (index', cl', ps')"
      by (simp add: Let_def)
    from "2.IH"[OF refl False this] u show ?thesis by auto
  qed
qed

lemma write_context_elems:
  "0 < c \<Longrightarrow> length cl = c \<Longrightarrow> set (write_context c index n cl) \<subseteq> set cl"
  by (induction c index n cl rule: write_context.induct) auto

lemma after_context_elems:
  "after_context c n ps = (ys, r) \<Longrightarrow>
   set ys \<subseteq> set (as_items ps) \<and> (case r of None \<Rightarrow> True | Some ps' \<Rightarrow> set ps' \<subseteq> set ps)"
proof (induction c n ps arbitrary: ys r rule: after_context.induct)
  case (1 c ps)
  then show ?case by auto
next
  case (2 c lines_to_write)
  then show ?case by simp
next
  case (3 c lines_to_write from_line to_line found_diff ps)
  obtain ys' r' where a: "after_context c (if found_diff then c - 1 else lines_to_write) ps = (ys', r')"
    by (cases "after_context c (if found_diff then c - 1 else lines_to_write) ps")
  with "3.prems" have e: "ys = AlignedPair from_line to_line found_diff # ys'" "r = r'" by simp_all
  from "3.IH"[OF a] show ?case by (auto simp: e split: option.splits)
qed

lemma as_items_mono: "set ps' \<subseteq> set ps \<Longrightarrow> set (as_items ps') \<subseteq> set (as_items ps)"
  by (simp add: as_items_def image_mono)

lemma context_loop_elems:
  "0 < c \<Longrightarrow> set (context_loop c ps) \<subseteq> insert Separator (set (as_items ps))"
proof (induction c ps rule: context_loop.induct)
  case (1 c ps)
  show ?case
  proof (cases "collect_context c 0 (replicate c Separator) ps")
    case None
    then show ?thesis by (subst context_loop.simps) simp
  next
    case (Some x)
    note cc = Some
    obtain index cl ps1 where x: "x = (index, cl, ps1)" by (cases x)
    from collect_context_elems[OF cc[unfolded x]]
    have l: "length cl = c" and s: "set cl \<subseteq> insert Separator (set (as_items ps))"
      and p1: "set ps1 \<subseteq> set ps" by auto
    obtain ys r where a: "after_context c (c - 1) ps1 = (ys, r)"
      by (cases "after_context c (c - 1) ps1")
    from a have a': "after_context c (c - Suc 0) ps1 = (ys, r)" by simp
    from after_context_elems[OF a] as_items_mono[OF p1]
    have y: "set ys \<subseteq> set (as_items ps)" by auto
    have w: "set (if c < index then Separator # write_context c index c cl
                  else write_context c 0 index cl) \<subseteq> insert Separator (set (as_items ps))"
      using write_context_elems[OF "1.prems" l] s by auto
    show ?thesis
    proof (cases r)
      case None
      have "context_loop c ps =
            (if c < index then Separator # write_context c index c cl
             else write_context c 0 index cl) @ ys"
        by (subst context_loop.simps) (simp add: cc x a' None)
      with w y show ?thesis by auto
    next
      case (Some ps2)
      from after_context_elems[OF a] have p2: "set ps2 \<subseteq> set ps1" by (simp add: Some)
      have ih: "set (context_loop c ps2) \<subseteq> insert Separator (set (as_items ps2))"
        by (rule "1.IH"[of x index "(cl, ps1)" cl ps1 ys r ps2]) (simp_all add: cc x a' Some "1.prems")
      have "context_loop c ps =
            (if c < index then Separator # write_context c index c cl
             else write_context c 0 index cl) @ ys @ context_loop c ps2"
        by (subst context_loop.simps) (simp add: cc x a' Some)
      with w y ih as_items_mono[OF p2] as_items_mono[OF p1] show ?thesis by auto
    qed
  qed
qed

lemma mdiff_context:
  assumes "0 \<le> n"
  shows "\<exists>ds. mdiff a b (Some n) linejunk charjunk = Returns ds \<and>
           list_all (\<lambda>d. d = Separator \<or> has_line_number d) ds"
proof -
  from mdiff_no_context[of a b linejunk charjunk] obtain F T where
    m: "mdiff a b None linejunk charjunk = Returns (as_items (pair_up F T))"
       "list_all2 one_real F T" by blast
  from m(1) obtain items where
    i: "line_iterator (ndiff a b linejunk charjunk) 0 0 0 None = Returns items"
       "as_items (line_pair_iterator [] [] items) = as_items (pair_up F T)"
    by (auto simp: mdiff_def obind_def as_items_def split: outcome.splits)
  let ?ps = "line_pair_iterator [] [] items"
  from pair_up_numbers[OF m(2)] i(2) have h: "list_all has_line_number (as_items ?ps)" by simp
  have e: "mdiff a b (Some n) linejunk charjunk =
           Returns (if ?ps = [] then [] else context_loop (nat (n + 1)) ?ps)"
    using assms by (simp add: mdiff_def i(1) Let_def)
  have "0 < nat (n + 1)" using assms by simp
  from context_loop_elems[OF this, of ?ps] h
  have "list_all (\<lambda>d. d = Separator \<or> has_line_number d) (context_loop (nat (n + 1)) ?ps)"
    by (auto simp: list_all_iff)
  with e show ?thesis by simp
qed

subsection \<open>Matching without a line-junk filter\<close>

lemma block_size_simp [simp]: "block_size (i, j, k) = k"
  by (simp add: block_size_def)

















subsection \<open>\<open>getDiffDetails\<close>\<close>

lemma getDiffDetails_context_example:
  "getDiffDetails
     \<lparr>filename = None, fromfile = ''old'', tofile = ''new'',
      fromlines = [''1'', ''2'', ''3'', ''4'', ''5'', ''6'', ''7'', ''x''],
      tolines = [''1'', ''2'', ''3'', ''4'', ''5'', ''6'', ''7''],
      leftcode = [], rightcode = []\<rparr> True 5 8 =
   Returns
     (\<lparr>filename = None, fromfile = ''old'', tofile = ''new'',
       fromlines = [''1'', ''2'', ''3'', ''4'', ''5'', ''6'', ''7'', ''x''],
       tolines = [''1'', ''2'', ''3'', ''4'', ''5'', ''6'', ''7''],
       leftcode = [], rightcode = []\<rparr>,
      [Separator,
       AlignedPair (Some 3, ''3'') (Some 3, ''3'') False,
       AlignedPair (Some 4, ''4'') (Some 4, ''4'') False,
       AlignedPair (Some 5, ''5'') (Some 5, ''5'') False,
       AlignedPair (Some 6, ''6'') (Some 6, ''6'') False,
       AlignedPair (Some 7, ''7'') (Some 7, ''7'') False,
       AlignedPair (Some 8, [nul_chr] @ ''-x'' @ [soh_chr]) (None, [newline_chr]) True])"
  by code_simp

lemma getDiffDetails_context:
  assumes "0 \<le> numlines"
  shows "\<exists>ds. getDiffDetails self True numlines tabSize =
          Returns (self\<lparr>fromlines := map (expand_tabs tabSize) (fromlines self),
                        tolines := map (expand_tabs tabSize) (tolines self)\<rparr>, ds) \<and>
        list_all (\<lambda>d. d = Separator \<or> has_line_number d) ds"
proof -
  let ?a = "map (expand_tabs tabSize) (fromlines self)"
  let ?b = "map (expand_tabs tabSize) (tolines self)"
  from mdiff_context[OF assms, of ?a ?b None "Some IS_CHARACTER_JUNK"] obtain ds where
    m: "mdiff ?a ?b (Some numlines) None (Some IS_CHARACTER_JUNK) = Returns ds"
       "list_all (\<lambda>d. d = Separator \<or> has_line_number d) ds"
    by blast
  have "getDiffDetails self True numlines tabSize = Returns (self\<lparr>fromlines := ?a, tolines := ?b\<rparr>, ds)"
    by (simp add: getDiffDetails_def Let_def m(1))
  with m(2) show ?thesis by blast
qed

section \<open>Claims on the aligned sequence\<close>

text \<open>
  C1: with context mode disabled, \<open>getDiffDetails\<close> returns for every pair of input
  line sequences (in the model, which has no recursion limit and no bound on memory).  It
  stores the tab-expanded lines and returns a sequence of aligned pairs,
  without separator, in which the left line numbers that are present are
  \<open>1, 2, ..., len(fromlines)\<close> in this order and the right line numbers that are
  present are \<open>1, 2, ..., len(tolines)\<close> in this order.  So the number of pairs with a
  left line number is the number of lines of \<open>fromlines\<close>, the number of pairs with a
  right line number is the number of lines of \<open>tolines\<close>, and no line is dropped or
  duplicated.
\<close>

theorem every_line_in_exactly_one_pair:
  "\<exists>ds. getDiffDetails self False numlines tabSize =
          Returns (self\<lparr>fromlines := map (expand_tabs tabSize) (fromlines self),
                        tolines := map (expand_tabs tabSize) (tolines self)\<rparr>, ds) \<and>
        Separator \<notin> set ds \<and>
        present (map left_number ds) = map int [1..<Suc (length (fromlines self))] \<and>
        present (map right_number ds) = map int [1..<Suc (length (tolines self))] \<and>
        length (filter (\<lambda>no. no \<noteq> None) (map left_number ds)) = length (fromlines self) \<and>
        length (filter (\<lambda>no. no \<noteq> None) (map right_number ds)) = length (tolines self)"
proof -
  from getDiffDetails_no_context[of self numlines tabSize] obtain ds where
    d: "getDiffDetails self False numlines tabSize =
          Returns (self\<lparr>fromlines := map (expand_tabs tabSize) (fromlines self),
                        tolines := map (expand_tabs tabSize) (tolines self)\<rparr>, ds)"
       "present (map left_number ds) = map int [1..<Suc (length (fromlines self))]"
       "present (map right_number ds) = map int [1..<Suc (length (tolines self))]"
       "Separator \<notin> set ds"
    by blast
  have l: "length (filter (\<lambda>no. no \<noteq> None) (map left_number ds)) = length (fromlines self)"
    using arg_cong[OF d(2), of length] by (simp add: present_length del: upt_Suc)
  have r: "length (filter (\<lambda>no. no \<noteq> None) (map right_number ds)) = length (tolines self)"
    using arg_cong[OF d(3), of length] by (simp add: present_length del: upt_Suc)
  from d l r show ?thesis by blast
qed

text \<open>
  C6, as the spec states it, fails in context mode: \<open>difflib._mdiff\<close> yields the
  separator \<open>(None, None, None)\<close> before a group of changes that does not start at the
  first line, and \<open>getDiffDetails\<close> returns it in the list.  Here, eight lines
  against the first seven of them, with the default of five context lines.
\<close>

theorem context_mode_separator_counterexample:
  "getDiffDetails
     \<lparr>filename = None, fromfile = ''old'', tofile = ''new'',
      fromlines = [''1'', ''2'', ''3'', ''4'', ''5'', ''6'', ''7'', ''x''],
      tolines = [''1'', ''2'', ''3'', ''4'', ''5'', ''6'', ''7''],
      leftcode = [], rightcode = []\<rparr> True 5 8 =
   Returns
     (\<lparr>filename = None, fromfile = ''old'', tofile = ''new'',
       fromlines = [''1'', ''2'', ''3'', ''4'', ''5'', ''6'', ''7'', ''x''],
       tolines = [''1'', ''2'', ''3'', ''4'', ''5'', ''6'', ''7''],
       leftcode = [], rightcode = []\<rparr>,
      [Separator,
       AlignedPair (Some 3, ''3'') (Some 3, ''3'') False,
       AlignedPair (Some 4, ''4'') (Some 4, ''4'') False,
       AlignedPair (Some 5, ''5'') (Some 5, ''5'') False,
       AlignedPair (Some 6, ''6'') (Some 6, ''6'') False,
       AlignedPair (Some 7, ''7'') (Some 7, ''7'') False,
       AlignedPair (Some 8, [nul_chr] @ ''-x'' @ [soh_chr]) (None, [newline_chr]) True]) \<and>
   \<not> has_line_number Separator"
  by (simp add: getDiffDetails_context_example del: append.simps)

text \<open>
  C6 (amended): with context mode disabled, every element of the sequence that
  \<open>getDiffDetails\<close> returns is an aligned pair with a line number on at least one
  side.  With context mode enabled and \<open>numlines\<close> not negative,
  \<open>getDiffDetails\<close> returns as well, and every element of the sequence is the
  separator or an aligned pair with a line number on at least one side.
\<close>

theorem every_pair_has_a_line_number:
  "(\<exists>ds. getDiffDetails self False numlines tabSize =
          Returns (self\<lparr>fromlines := map (expand_tabs tabSize) (fromlines self),
                        tolines := map (expand_tabs tabSize) (tolines self)\<rparr>, ds) \<and>
         list_all has_line_number ds) \<and>
   (0 \<le> numlines \<longrightarrow>
      (\<exists>ds. getDiffDetails self True numlines tabSize =
          Returns (self\<lparr>fromlines := map (expand_tabs tabSize) (fromlines self),
                        tolines := map (expand_tabs tabSize) (tolines self)\<rparr>, ds) \<and>
         list_all (\<lambda>d. d = Separator \<or> has_line_number d) ds))"
  using getDiffDetails_no_context[of self numlines tabSize] getDiffDetails_context[of numlines self tabSize]
  by blast

theorem every_pair_has_a_line_number_witness:
  "(0::int) \<le> 5 \<and>
   list_all (\<lambda>d. d = Separator \<or> has_line_number d)
      [Separator,
       AlignedPair (Some 3, ''3'') (Some 3, ''3'') False,
       AlignedPair (Some 4, ''4'') (Some 4, ''4'') False,
       AlignedPair (Some 5, ''5'') (Some 5, ''5'') False,
       AlignedPair (Some 6, ''6'') (Some 6, ''6'') False,
       AlignedPair (Some 7, ''7'') (Some 7, ''7'') False,
       AlignedPair (Some 8, [nul_chr] @ ''-x'' @ [soh_chr]) (None, [newline_chr]) True]"
proof -
  have h: "(0::int) \<le> 5" by simp
  from every_pair_has_a_line_number[of
      "\<lparr>filename = None, fromfile = ''old'', tofile = ''new'',
        fromlines = [''1'', ''2'', ''3'', ''4'', ''5'', ''6'', ''7'', ''x''],
        tolines = [''1'', ''2'', ''3'', ''4'', ''5'', ''6'', ''7''],
        leftcode = [], rightcode = []\<rparr>" 5 8] h
  show ?thesis
    by (simp only: getDiffDetails_context_example) simp
qed




end
